theory Spec2Isabelle
  imports Main "HOL-Library.Multiset"
begin

section \<open>Search results\<close>

text \<open>
  The component modelled here is \<^verbatim>\<open>StaticSearch\<close> in its latest form (the second file of
  \<^verbatim>\<open>src/unnamed/part_000\<close>, lines 471 to 1309): the one with live results, suggestions
  and the "no results" notice. \<^verbatim>\<open>src/components/layout/dynamic/Search.tsx\<close> and the first
  file of \<^verbatim>\<open>part_000\<close> are earlier forms of the same component. The callbacks of the
  search request in \<^verbatim>\<open>Search.tsx\<close>, which differ from the latest ones, are modelled in
  the section on the earlier component.
\<close>

datatype SearchResultType = Page | Section | Subsection | Property | Function

text \<open>\<^verbatim>\<open>interface SearchResult\<close>. The field \<^verbatim>\<open>library\<close> is declared as
  \<^verbatim>\<open>"library" | "motion"\<close>, but the hits of the search service are only cast to the
  interface (\<^verbatim>\<open>hits as SearchResult[]\<close>), so it is a string here.\<close>

record SearchResult =
  objectID :: "string option"
  type :: SearchResultType
  library :: string
  page :: string
  title :: string
  secondaryTitle :: "string option"
  tertiaryTitle :: "string option"
  description :: string
  href :: string

definition librarySuggestedResults :: "SearchResult list" where
  \<open>librarySuggestedResults =
    [ \<lparr> objectID = None, type = Property, library = ''library'', page = ''Frame'',
        title = ''animate'',
        secondaryTitle = Some ''AnimationControls | TargetAndTransition | VariantLabels | boolean'',
        tertiaryTitle = None,
        description = ''Values to animate to, variant label(s), or AnimationControls.'',
        href = ''/api/frame/#animationprops.animate'' \<rparr>,
      \<lparr> objectID = None, type = Property, library = ''library'', page = ''Frame'',
        title = ''drag'',
        secondaryTitle = Some ''boolean | "x" | "y"'',
        tertiaryTitle = None,
        description = ''Enable dragging for this element. Set to false by default. Set true to drag in both directions. Set "x" or "y" to only drag in a specific direction.'',
        href = ''/api/frame/#draggableprops.drag'' \<rparr>,
      \<lparr> objectID = None, type = Page, library = ''library'', page = ''Scroll'',
        title = ''Scroll'',
        secondaryTitle = None,
        tertiaryTitle = None,
        description = ''Create scrollable areas for desktop or mobile, with mouse and touch-based input support.'',
        href = ''/api/scroll/'' \<rparr>,
      \<lparr> objectID = None, type = Page, library = ''library'', page = ''Property Controls'',
        title = ''Property Controls'',
        secondaryTitle = None,
        tertiaryTitle = None,
        description = ''Add controls to your components to allow customization via the Framer interface.'',
        href = ''/api/property-controls/'' \<rparr> ]\<close>

definition motionSuggestedResults :: "SearchResult list" where
  \<open>motionSuggestedResults =
    [ \<lparr> objectID = None, type = Page, library = ''motion'', page = ''Motion components'',
        title = ''Motion components'',
        secondaryTitle = None,
        tertiaryTitle = None,
        description = ''Motion components are DOM primitives optimised for 60fps animation and gestures.'',
        href = ''/api/motion/component/'' \<rparr>,
      \<lparr> objectID = None, type = Page, library = ''motion'', page = ''MotionValue'',
        title = ''MotionValue'',
        secondaryTitle = None,
        tertiaryTitle = None,
        description = ''MotionValues track the state and velocity of animating values.'',
        href = ''/api/motion/motionvalue/'' \<rparr>,
      \<lparr> objectID = None, type = Subsection, library = ''motion'', page = ''Animation'',
        title = ''Scale correction'',
        secondaryTitle = Some ''Layout animations'',
        tertiaryTitle = None,
        description = ''All layout animations are performed using the transform property, resulting in smooth framerates.'',
        href = ''/api/motion/animation/#scale-correction'' \<rparr>,
      \<lparr> objectID = None, type = Function, library = ''motion'', page = ''MotionValue'',
        title = ''useSpring'',
        secondaryTitle = Some ''MotionValue'',
        tertiaryTitle = Some ''source, config'',
        description = ''Creates a MotionValue that, when set, will use a spring animation to animate to its new state.'',
        href = ''/api/motion/motionvalue/#usespring'' \<rparr> ]\<close>

section \<open>Result categoriser\<close>

text \<open>
  \<^verbatim>\<open>categorisedResults\<close> builds plain JavaScript objects with lodash's \<^verbatim>\<open>groupBy\<close>. An
  object is modelled by the list of its own string-keyed properties in the order in which
  \<^verbatim>\<open>Object.entries\<close>, \<^verbatim>\<open>Object.keys\<close> and \<^verbatim>\<open>for in\<close> enumerate them: the keys that are
  array indices first, in ascending numeric order, then all other keys in the order of
  their creation.
\<close>

type_synonym 'v jsobject = "(string \<times> 'v) list"

definition is_digit :: "char \<Rightarrow> bool" where
  "is_digit c = (c \<in> set ''0123456789'')"

definition digit_value :: "char \<Rightarrow> nat" where
  "digit_value c = of_char c - of_char CHR ''0''"

definition decimal_value :: "string \<Rightarrow> int" where
  "decimal_value k = foldl (\<lambda>n c. 10 * n + int (digit_value c)) 0 k"

text \<open>A property key is an array index when it is the canonical decimal numeral of an
  integer from 0 to \<open>2^32 - 2 = 4294967294\<close>.\<close>

definition is_array_index :: "string \<Rightarrow> bool" where
  "is_array_index k =
     (k \<noteq> [] \<and> list_all is_digit k \<and> (k = ''0'' \<or> hd k \<noteq> CHR ''0'')
      \<and> decimal_value k < 4294967295)"

definition enumerated_before :: "string \<Rightarrow> string \<Rightarrow> bool" where
  "enumerated_before k' k = (is_array_index k' \<and> decimal_value k' < decimal_value k)"

text \<open>Creating a property that the object does not have yet: an array index goes after
  the smaller array indices, any other key goes last.\<close>

definition object_define :: "string \<Rightarrow> 'v \<Rightarrow> 'v jsobject \<Rightarrow> 'v jsobject" where
  "object_define k v obj =
     (if is_array_index k
      then filter (\<lambda>e. enumerated_before (fst e) k) obj @ [(k, v)]
           @ filter (\<lambda>e. \<not> enumerated_before (fst e) k) obj
      else obj @ [(k, v)])"

text \<open>
  \<^verbatim>\<open>obj[k] = v\<close>, for an object made by \<^verbatim>\<open>{}\<close> and a value \<open>v\<close> that is an object (here
  always an array or a plain object). An own property keeps its place and takes the
  value. Otherwise the key \<^verbatim>\<open>__proto__\<close> reaches the setter inherited from
  \<^verbatim>\<open>Object.prototype\<close>, which replaces the prototype of \<open>obj\<close> and creates no property; any
  other key becomes a new own property.
\<close>

definition object_set :: "string \<Rightarrow> 'v \<Rightarrow> 'v jsobject \<Rightarrow> 'v jsobject" where
  "object_set k v obj =
     (if k \<in> fst ` set obj
      then map (\<lambda>e. if fst e = k then (k, v) else e) obj
      else if k = ''__proto__'' then obj
      else object_define k v obj)"

text \<open>
  \<^verbatim>\<open>groupBy(collection, "prop")\<close> of the package \<^verbatim>\<open>lodash.groupby\<close>, which the component
  imports, for an array and a property name:
  \<^verbatim>\<open>
  if (hasOwnProperty.call(result, key)) { result[key].push(value) }
  else { result[key] = [value] }
  \<close>
  applied to the elements from first to last, starting from the empty object. Both
  branches are \<open>object_set\<close>: in the first the key is an own property and its array gets
  one more element, the second is a plain assignment. An element whose key is
  \<^verbatim>\<open>__proto__\<close> therefore never gets a bucket: each such assignment only replaces the
  prototype of the result.
\<close>

definition groupBy_step :: "('a \<Rightarrow> string) \<Rightarrow> 'a list jsobject \<Rightarrow> 'a \<Rightarrow> 'a list jsobject" where
  "groupBy_step iteratee result x =
     (let key = iteratee x in
      case map_of result key of
        Some bucket \<Rightarrow> object_set key (bucket @ [x]) result
      | None \<Rightarrow> object_set key [x] result)"

definition groupBy :: "('a \<Rightarrow> string) \<Rightarrow> 'a list \<Rightarrow> 'a list jsobject" where
  "groupBy iteratee collection = foldl (groupBy_step iteratee) [] collection"

type_synonym CategorisedResults = "SearchResult list jsobject jsobject"

text \<open>
  \<^verbatim>\<open>
  const categorisedResults = useMemo(() => {
      if (Array.isArray(results)) {
          const libraryDividedResults = groupBy(results, "library")
          const pageDividedResults = {}
          for (const [library, results] of Object.entries(libraryDividedResults)) {
              pageDividedResults[library] = groupBy(results, "page")
          }
          return pageDividedResults
      } else {
          return {}
      }
  }, [results])
  \<close>
  The state \<^verbatim>\<open>results\<close> is \<^verbatim>\<open>null\<close> (\<open>None\<close>) or an array.
\<close>

definition categorisedResults :: "SearchResult list option \<Rightarrow> CategorisedResults" where
  "categorisedResults results =
     (case results of
        Some rs \<Rightarrow>
          (let libraryDividedResults = groupBy library rs in
           foldl (\<lambda>pageDividedResults (lib, rs'). object_set lib (groupBy page rs') pageDividedResults)
             [] libraryDividedResults)
      | None \<Rightarrow> [])"

text \<open>Modelled from the spec: \<^verbatim>\<open>getDeepValues\<close> of \<^verbatim>\<open>utils/getDeepValues\<close> (file missing), which
  is all that \<^verbatim>\<open>flattenSearchResults\<close> calls: "iterate groups in their key order, then
  categories in their key order, then results in bucket order".\<close>

definition getDeepValues :: "CategorisedResults \<Rightarrow> SearchResult list" where
  "getDeepValues obj = concat (map (\<lambda>(lib, pages). concat (map snd pages)) obj)"

definition flattenSearchResults :: "CategorisedResults \<Rightarrow> SearchResult list" where
  "flattenSearchResults categorised = getDeepValues categorised"

text \<open>A list is grouped contiguously by a key when every key occupies one run of
  neighbours: after each run of equal keys is collapsed to one occurrence, no key is left
  twice.\<close>

definition contiguous_by :: "('a \<Rightarrow> 'k) \<Rightarrow> 'a list \<Rightarrow> bool" where
  "contiguous_by label xs = distinct (remdups_adj (map label xs))"

section \<open>Selection cursor\<close>

text \<open>
  The search overlay keeps two selection cursors, both obtained from the hook
  \<^verbatim>\<open>useIndexItem\<close> of \<^verbatim>\<open>hooks/useIndex\<close>:
  \<^verbatim>\<open>
  const [selectedResult, previousResult, nextResult, setResult] = useIndexItem(indexedResults)
  const [selectedSuggestedResult, previousSuggestedResult, nextSuggestedResult, setSuggestedResult] =
      useIndexItem(suggestedResults)
  \<close>
  The hook's file is not among the sources, so its four operations follow the contract
  of section 4.1 of the specification. A cursor is an index (a JavaScript number, here an
  \<open>int\<close>) into a list whose current length \<open>N\<close> is passed to every operation.
\<close>

text \<open>Modelled from the spec: \<^verbatim>\<open>clamp(i, 0, N-1)\<close> used by the cursor of
  \<^verbatim>\<open>hooks/useIndex\<close> (file missing); the value bounded below by \<open>lo\<close> and above by \<open>hi\<close>.\<close>

definition clamp :: "int \<Rightarrow> int \<Rightarrow> int \<Rightarrow> int" where
  "clamp i lo hi = max lo (min i hi)"

text \<open>Modelled from the spec: \<^verbatim>\<open>next()\<close> of the cursor of \<^verbatim>\<open>hooks/useIndex\<close> (file missing):
  "index = min(index+1, N-1) if N>0, else unchanged".\<close>

definition cursor_next :: "nat \<Rightarrow> int \<Rightarrow> int" where
  "cursor_next N i = (if 0 < N then min (i + 1) (int N - 1) else i)"

text \<open>Modelled from the spec: \<^verbatim>\<open>previous()\<close> of the cursor of \<^verbatim>\<open>hooks/useIndex\<close> (file missing):
  "index = max(index-1, 0)".\<close>

definition cursor_previous :: "nat \<Rightarrow> int \<Rightarrow> int" where
  "cursor_previous N i = max (i - 1) 0"

text \<open>Modelled from the spec: \<^verbatim>\<open>set(i)\<close> of the cursor of \<^verbatim>\<open>hooks/useIndex\<close> (file missing):
  "index = clamp(i, 0, N-1); fails silently (no-op) if N==0". The first argument is the
  list length, the second the requested index, the third the current index.\<close>

definition cursor_set :: "nat \<Rightarrow> int \<Rightarrow> int \<Rightarrow> int" where
  "cursor_set N j i = (if N = 0 then i else clamp j 0 (int N - 1))"

text \<open>Modelled from the spec: \<^verbatim>\<open>reset()\<close> of the cursor of \<^verbatim>\<open>hooks/useIndex\<close> (file missing):
  "index = 0".\<close>

definition cursor_reset :: "int \<Rightarrow> int" where
  "cursor_reset i = 0"

text \<open>Modelled from the spec: the item \<^verbatim>\<open>useIndexItem\<close> returns first, \<^verbatim>\<open>items[index]\<close>.
  "Resizing the underlying list does not auto-clamp", so the index may lie outside the
  list; JavaScript then yields \<^verbatim>\<open>undefined\<close>, here \<open>None\<close>.\<close>

definition cursor_item :: "'a list \<Rightarrow> int \<Rightarrow> 'a option" where
  "cursor_item items i = (if 0 \<le> i \<and> i < int (length items) then Some (items ! nat i) else None)"

section \<open>The search overlay\<close>

subsection \<open>Environment and state\<close>

text \<open>What the component reads from outside itself: \<^verbatim>\<open>isMotion()\<close> of \<^verbatim>\<open>utils/env\<close> (file
  missing, taken as given) and \<^verbatim>\<open>document.title\<close>.\<close>

record Env =
  isMotion :: bool
  documentTitle :: string

text \<open>The arguments of one \<^verbatim>\<open>index.search(value, {hitsPerPage, optionalFilters})\<close> call.\<close>

record SearchRequest =
  query :: string
  hitsPerPage :: nat
  optionalFilters :: "string list"

datatype JsError = TypeError

text \<open>
  The React state of \<^verbatim>\<open>StaticSearch\<close> (\<^verbatim>\<open>value\<close>, \<^verbatim>\<open>isOpen\<close>, \<^verbatim>\<open>results\<close>), the index held by
  each of the two \<^verbatim>\<open>useIndexItem\<close> cursors, the state of the debounced \<^verbatim>\<open>search\<close> (the
  argument of its last call and the time at which it is due, while one is pending), and
  what the component has sent out: the calls of the search service, the values given to
  \<^verbatim>\<open>console.error\<close>, the assignments to \<^verbatim>\<open>window.location.href\<close>, and the exceptions that
  left an event listener.
\<close>

record SearchState =
  value_text :: string
  isOpen :: bool
  results :: "SearchResult list option"
  resultIndex :: int
  suggestedIndex :: int
  timer :: "(string \<times> nat) option"
  requests :: "SearchRequest list"
  consoleErrors :: "string list"
  navigations :: "string list"
  uncaught :: "JsError list"

definition initialState :: SearchState where
  "initialState =
     \<lparr> value_text = [], isOpen = False, results = None, resultIndex = 0, suggestedIndex = 0,
       timer = None, requests = [], consoleErrors = [], navigations = [], uncaught = [] \<rparr>"

subsection \<open>Values derived at each render\<close>

definition indexedResults :: "SearchState \<Rightarrow> SearchResult list" where
  "indexedResults s = flattenSearchResults (categorisedResults (results s))"

definition suggestedResults :: "Env \<Rightarrow> SearchResult list" where
  "suggestedResults env = (if isMotion env then motionSuggestedResults else librarySuggestedResults)"

text \<open>\<^verbatim>\<open>const isSuggesting = useMemo(() => !results || results?.length === 0, [results])\<close>\<close>

definition isSuggesting :: "SearchState \<Rightarrow> bool" where
  "isSuggesting s = (case results s of None \<Rightarrow> True | Some rs \<Rightarrow> length rs = 0)"

text \<open>\<^verbatim>\<open>const isEmpty = useMemo(() => isSuggesting && Array.isArray(results), [isSuggesting, results])\<close>\<close>

definition isEmpty :: "SearchState \<Rightarrow> bool" where
  "isEmpty s = (isSuggesting s \<and> results s \<noteq> None)"

definition selectedResult :: "SearchState \<Rightarrow> SearchResult option" where
  "selectedResult s = cursor_item (indexedResults s) (resultIndex s)"

definition selectedSuggestedResult :: "Env \<Rightarrow> SearchState \<Rightarrow> SearchResult option" where
  "selectedSuggestedResult env s = cursor_item (suggestedResults env) (suggestedIndex s)"

text \<open>The three presentation modes of the specification, read off the two flags that
  \<^verbatim>\<open>SearchResults\<close> and \<^verbatim>\<open>SearchEmpty\<close> render from.\<close>

datatype PresentationMode = Suggesting | Showing | Empty

definition presentationMode :: "SearchState \<Rightarrow> PresentationMode" where
  "presentationMode s = (if isSuggesting s then (if isEmpty s then Empty else Suggesting) else Showing)"

text \<open>The list the keyboard acts on: \<^verbatim>\<open>handleKey\<close> uses the suggestion cursor when
  \<^verbatim>\<open>isSuggesting\<close> holds and the result cursor otherwise.\<close>

definition activeList :: "Env \<Rightarrow> SearchState \<Rightarrow> SearchResult list" where
  "activeList env s = (if isSuggesting s then suggestedResults env else indexedResults s)"

definition activeIndex :: "SearchState \<Rightarrow> int" where
  "activeIndex s = (if isSuggesting s then suggestedIndex s else resultIndex s)"

subsection \<open>The cursor operations of the two hooks\<close>

definition previousResult :: "SearchState \<Rightarrow> SearchState" where
  "previousResult s = s\<lparr>resultIndex := cursor_previous (length (indexedResults s)) (resultIndex s)\<rparr>"

definition nextResult :: "SearchState \<Rightarrow> SearchState" where
  "nextResult s = s\<lparr>resultIndex := cursor_next (length (indexedResults s)) (resultIndex s)\<rparr>"

definition setResult :: "int \<Rightarrow> SearchState \<Rightarrow> SearchState" where
  "setResult i s = s\<lparr>resultIndex := cursor_set (length (indexedResults s)) i (resultIndex s)\<rparr>"

definition previousSuggestedResult :: "Env \<Rightarrow> SearchState \<Rightarrow> SearchState" where
  "previousSuggestedResult env s =
     s\<lparr>suggestedIndex := cursor_previous (length (suggestedResults env)) (suggestedIndex s)\<rparr>"

definition nextSuggestedResult :: "Env \<Rightarrow> SearchState \<Rightarrow> SearchState" where
  "nextSuggestedResult env s =
     s\<lparr>suggestedIndex := cursor_next (length (suggestedResults env)) (suggestedIndex s)\<rparr>"

definition setSuggestedResult :: "Env \<Rightarrow> int \<Rightarrow> SearchState \<Rightarrow> SearchState" where
  "setSuggestedResult env i s =
     s\<lparr>suggestedIndex := cursor_set (length (suggestedResults env)) i (suggestedIndex s)\<rparr>"

subsection \<open>Query dispatch\<close>

text \<open>
  \<^verbatim>\<open>
  const getPage = () => {
      const title = document.title
      if (title.includes("|")) {
          const [, page] = title.match(/.* \| (.*)/) || [null, null]
          return page
      } else { return null }
  }
  \<close>
  For a title of one line, the greedy \<^verbatim>\<open>.*\<close> makes the match end at the last \<^verbatim>\<open>" | "\<close>.
\<close>

fun after_last_separator :: "string \<Rightarrow> string option" where
  "after_last_separator [] = None"
| "after_last_separator (c # cs) =
     (case after_last_separator cs of
        Some rest \<Rightarrow> Some rest
      | None \<Rightarrow> (if take 3 (c # cs) = '' | '' then Some (drop 3 (c # cs)) else None))"

definition getPage :: "string \<Rightarrow> string option" where
  "getPage doc_title =
     (if CHR ''|'' \<in> set doc_title then after_last_separator doc_title else None)"

text \<open>
  The function given to \<^verbatim>\<open>debounce\<close>: it builds the filters and calls the search service.
  The two callbacks of the returned promise are \<open>searchResolved\<close> and \<open>searchRejected\<close>
  below; they run when the service answers.
\<close>

definition search_invoke :: "Env \<Rightarrow> string \<Rightarrow> SearchState \<Rightarrow> SearchState" where
  "search_invoke env v s =
     (let current = getPage (documentTitle env);
          filters = [''library:'' @ (if isMotion env then ''motion'' else ''library'')];
          filters' = (case current of
                        Some p \<Rightarrow> (if p \<noteq> [] then filters @ [''page:'' @ p] else filters)
                      | None \<Rightarrow> filters)
      in s\<lparr>requests := requests s @ [\<lparr>query = v, hitsPerPage = 10, optionalFilters = filters'\<rparr>]\<rparr>)"

text \<open>\<^verbatim>\<open>.then(({ hits }) => { setResults(hits as SearchResult[]) })\<close>\<close>

definition searchResolved :: "SearchResult list \<Rightarrow> SearchState \<Rightarrow> SearchState" where
  "searchResolved hits s = s\<lparr>results := Some hits\<rparr>"

text \<open>\<^verbatim>\<open>.catch(error => { setResults([]); console.error(error) })\<close>\<close>

definition searchRejected :: "string \<Rightarrow> SearchState \<Rightarrow> SearchState" where
  "searchRejected error s = s\<lparr>results := Some [], consoleErrors := consoleErrors s @ [error]\<rparr>"

text \<open>
  \<^verbatim>\<open>search = useCallback(debounce(..., 200), [])\<close>: one debounced function for the life of
  the component, with lodash's defaults (no leading call, no maximal wait). A call at time
  \<open>now\<close> (milliseconds) records its argument and puts the invocation off to \<open>now + 200\<close>,
  replacing whatever was pending; \<^verbatim>\<open>cancel\<close> drops the pending invocation; when the time
  is reached, the function is invoked with the last recorded argument.
\<close>

definition wait :: nat where
  "wait = 200"

definition search :: "nat \<Rightarrow> string \<Rightarrow> SearchState \<Rightarrow> SearchState" where
  "search now v s = s\<lparr>timer := Some (v, now + wait)\<rparr>"

definition search_cancel :: "SearchState \<Rightarrow> SearchState" where
  "search_cancel s = s\<lparr>timer := None\<rparr>"

definition timerExpired :: "Env \<Rightarrow> nat \<Rightarrow> SearchState \<Rightarrow> SearchState" where
  "timerExpired env now s =
     (case timer s of
        Some (v, due) \<Rightarrow> (if due \<le> now then search_invoke env v (s\<lparr>timer := None\<rparr>) else s)
      | None \<Rightarrow> s)"

subsection \<open>Event handlers\<close>

text \<open>
  \<^verbatim>\<open>
  setValue(value)
  if (value) { search(value) } else { setResults(null); search.cancel() }
  \<close>
\<close>

definition handleChange :: "nat \<Rightarrow> string \<Rightarrow> SearchState \<Rightarrow> SearchState" where
  "handleChange now v s =
     (let s1 = s\<lparr>value_text := v\<rparr>
      in if v \<noteq> [] then search now v s1 else search_cancel (s1\<lparr>results := None\<rparr>))"

definition handleFocus :: "SearchState \<Rightarrow> SearchState" where
  "handleFocus s = s\<lparr>isOpen := True\<rparr>"

definition handleClose :: "SearchState \<Rightarrow> SearchState" where
  "handleClose s = s\<lparr>isOpen := False\<rparr>"

record KeyboardEvent =
  key :: string
  metaKey :: bool
  ctrlKey :: bool
  altKey :: bool

text \<open>\<^verbatim>\<open>document.activeElement\<close>, as far as \<^verbatim>\<open>handleKey\<close> looks at it.\<close>

datatype ActiveElement = Body | NoElement | OtherElement

text \<open>\<^verbatim>\<open>/^\w$/.test(event.key)\<close>: the key is one character out of letters, digits and
  the underscore.\<close>

definition is_word_char :: "char \<Rightarrow> bool" where
  "is_word_char c =
     (c \<in> set ''abcdefghijklmnopqrstuvwxyzABCDEFGHIJKLMNOPQRSTUVWXYZ0123456789_'')"

definition is_word_key :: "string \<Rightarrow> bool" where
  "is_word_key k = (case k of [c] \<Rightarrow> is_word_char c | _ \<Rightarrow> False)"

text \<open>
  \<^verbatim>\<open>window.location.href = selected.href\<close>. When the cursor's item is \<^verbatim>\<open>undefined\<close>, reading
  \<^verbatim>\<open>.href\<close> throws a \<^verbatim>\<open>TypeError\<close>, which leaves the listener after \<^verbatim>\<open>setOpen(false)\<close> was
  called.
\<close>

definition navigateTo :: "SearchResult option \<Rightarrow> SearchState \<Rightarrow> SearchState" where
  "navigateTo selected s =
     (case selected of
        Some r \<Rightarrow> s\<lparr>navigations := navigations s @ [href r]\<rparr>
      | None \<Rightarrow> s\<lparr>uncaught := uncaught s @ [TypeError]\<rparr>)"

text \<open>The \<^verbatim>\<open>keydown\<close> listener on \<^verbatim>\<open>window\<close>. (\<^verbatim>\<open>event.preventDefault()\<close>, called in every
  branch that acts, changes nothing of the component and is left out.)\<close>

definition handleKey :: "Env \<Rightarrow> nat \<Rightarrow> ActiveElement \<Rightarrow> KeyboardEvent \<Rightarrow> SearchState \<Rightarrow> SearchState" where
  "handleKey env now active event s =
     (if isOpen s then
        (if key event = ''ArrowUp'' then
           (if isSuggesting s then previousSuggestedResult env s else previousResult s)
         else if key event = ''ArrowDown'' then
           (if isSuggesting s then nextSuggestedResult env s else nextResult s)
         else if key event = ''Escape'' then s\<lparr>isOpen := False\<rparr>
         else if key event = ''Enter'' then
           (if isSuggesting s
            then navigateTo (selectedSuggestedResult env s) (s\<lparr>isOpen := False\<rparr>)
            else navigateTo (selectedResult s) (s\<lparr>isOpen := False\<rparr>))
         else s)
      else
        (if active = Body \<or> active = NoElement then
           (if is_word_key (key event) \<and> \<not> metaKey event \<and> \<not> ctrlKey event \<and> \<not> altKey event
            then (handleChange now (key event) s)\<lparr>isOpen := True\<rparr>
            else s)
         else s))"

subsection \<open>Effects\<close>

text \<open>
  \<^verbatim>\<open>
  useEffect(() => {
      if (isOpen) { inputRef.current && inputRef.current.focus(); ... }
      else { setResult(0); setSuggestedResult(0); inputRef.current && inputRef.current.blur(); ... }
  }, [isOpen])
  useEffect(() => {
      if (isSuggesting) { setResult(0) } else { setSuggestedResult(0) }
  }, [isSuggesting])
  \<close>
  An effect runs after the render in which its dependency differs from the render
  before; \<open>prev\<close> is the state of the render before, \<open>s\<close> the state just rendered. Neither
  effect changes a dependency, so one pass settles. (Focusing the input calls
  \<open>handleFocus\<close>, which sets \<^verbatim>\<open>isOpen\<close> to the value it has.)
\<close>

definition openEffect :: "Env \<Rightarrow> SearchState \<Rightarrow> SearchState \<Rightarrow> SearchState" where
  "openEffect env prev s =
     (if isOpen prev = isOpen s then s
      else if isOpen s then s
      else setSuggestedResult env 0 (setResult 0 s))"

definition suggestingEffect :: "Env \<Rightarrow> SearchState \<Rightarrow> SearchState \<Rightarrow> SearchState" where
  "suggestingEffect env prev s =
     (if isSuggesting prev = isSuggesting s then s
      else if isSuggesting s then setResult 0 s
      else setSuggestedResult env 0 s)"

definition runEffects :: "Env \<Rightarrow> SearchState \<Rightarrow> SearchState \<Rightarrow> SearchState" where
  "runEffects env prev s = suggestingEffect env prev (openEffect env prev s)"

subsection \<open>The event loop\<close>

text \<open>
  Everything that can happen to the mounted component: input and focus events of the text
  field, a click outside the wrapper (\<^verbatim>\<open>useClickOutside\<close>) or on the "esc" button, a key
  pressed anywhere in the window, the pointer entering a rendered item, the answer or the
  failure of a request (the number says which request of \<open>requests\<close> is answered; the
  callbacks do not receive it), and the mere passing of time. Each event carries its time;
  a pending debounced call that is due by then is invoked first, then the handler runs,
  then the effects.
\<close>

datatype Event =
    Change string
  | Focus
  | Close
  | KeyDown ActiveElement KeyboardEvent
  | PointerEnterResult int
  | PointerEnterSuggestion int
  | Resolved nat "SearchResult list"
  | Rejected nat string
  | Tick

fun handle :: "Env \<Rightarrow> nat \<Rightarrow> Event \<Rightarrow> SearchState \<Rightarrow> SearchState" where
  "handle env now (Change v) s = handleChange now v s"
| "handle env now Focus s = handleFocus s"
| "handle env now Close s = handleClose s"
| "handle env now (KeyDown active event) s = handleKey env now active event s"
| "handle env now (PointerEnterResult i) s =
     (if isOpen s \<and> \<not> isSuggesting s then setResult i s else s)"
| "handle env now (PointerEnterSuggestion i) s =
     (if isOpen s \<and> isSuggesting s then setSuggestedResult env i s else s)"
| "handle env now (Resolved n hits) s = searchResolved hits s"
| "handle env now (Rejected n error) s = searchRejected error s"
| "handle env now Tick s = s"

definition step :: "Env \<Rightarrow> SearchState \<Rightarrow> nat \<times> Event \<Rightarrow> SearchState" where
  "step env s e =
     (let s0 = timerExpired env (fst e) s
      in runEffects env s0 (handle env (fst e) (snd e) s0))"

definition run :: "Env \<Rightarrow> SearchState \<Rightarrow> (nat \<times> Event) list \<Rightarrow> SearchState" where
  "run env s events = foldl (step env) s events"

section \<open>Auxiliary notions for the categoriser\<close>

text \<open>An object lists each key of \<open>S\<close> once, in some order, with the value \<open>G\<close> assigns to
  it.\<close>

definition tabulates :: "('k \<Rightarrow> 'v) \<Rightarrow> 'k set \<Rightarrow> ('k \<times> 'v) list \<Rightarrow> bool" where
  "tabulates G S obj =
     (distinct (map fst obj) \<and> fst ` set obj = S \<and> (\<forall>e \<in> set obj. snd e = G (fst e)))"

text \<open>The buckets of a two-level object, each with its pair of keys, in the order in which
  \<open>getDeepValues\<close> visits them.\<close>

definition labelled_buckets :: "'v jsobject jsobject \<Rightarrow> ((string \<times> string) \<times> 'v) list" where
  "labelled_buckets obj = concat (map (\<lambda>e. map (\<lambda>c. ((fst e, fst c), snd c)) (snd e)) obj)"

text \<open>What \<open>object_define\<close> and \<open>groupBy_step\<close> do to the list of keys.\<close>

definition insert_key :: "string \<Rightarrow> string list \<Rightarrow> string list" where
  "insert_key k ks =
     (if is_array_index k
      then filter (\<lambda>k'. enumerated_before k' k) ks @ [k] @ filter (\<lambda>k'. \<not> enumerated_before k' k) ks
      else ks @ [k])"

definition key_step :: "string list \<Rightarrow> string \<Rightarrow> string list" where
  "key_step ks k = (if k \<in> set ks \<or> k = ''__proto__'' then ks else insert_key k ks)"

text \<open>The order of enumeration: whatever precedes an array index is a smaller array
  index.\<close>

definition enumeration_order :: "string \<Rightarrow> string \<Rightarrow> bool" where
  "enumeration_order a b = (is_array_index b \<longrightarrow> is_array_index a \<and> decimal_value a < decimal_value b)"

subsection \<open>Invariant of the suggestion cursor\<close>

definition suggestion_cursor_ok :: "Env \<Rightarrow> SearchState \<Rightarrow> bool" where
  "suggestion_cursor_ok env s =
     (0 \<le> suggestedIndex s \<and> suggestedIndex s < int (length (suggestedResults env)))"

subsection \<open>Bursts of calls of the change handler\<close>

text \<open>A list of calls, each with its time and its text, is fired faster than the debounce
  window when the times do not decrease and each call comes less than \<open>wait\<close> after the
  one before.\<close>

fun rapid :: "(nat \<times> string) list \<Rightarrow> bool" where
  "rapid [] = True"
| "rapid [c] = True"
| "rapid (c # d # cs) = (fst c \<le> fst d \<and> fst d < fst c + wait \<and> rapid (d # cs))"

definition setQuery_calls :: "(nat \<times> string) list \<Rightarrow> (nat \<times> Event) list" where
  "setQuery_calls calls = map (\<lambda>c. (fst c, Change (snd c))) calls"

definition timer_not_due :: "nat \<Rightarrow> SearchState \<Rightarrow> bool" where
  "timer_not_due now s = (case timer s of None \<Rightarrow> True | Some (v, due) \<Rightarrow> now < due)"

section \<open>Example data and scenarios\<close>

definition hit :: "string \<Rightarrow> string \<Rightarrow> string \<Rightarrow> SearchResult" where
  "hit lib pg t = \<lparr> objectID = None, type = Page, library = lib, page = pg, title = t,
     secondaryTitle = None, tertiaryTitle = None, description = [], href = ''/'' @ t \<rparr>"

definition example_env :: Env where
  "example_env = \<lparr> isMotion = False, documentTitle = ''Framer API | Frame'' \<rparr>"

definition plain_key :: "string \<Rightarrow> KeyboardEvent" where
  "plain_key k = \<lparr>key = k, metaKey = False, ctrlKey = False, altKey = False\<rparr>"

definition three_hits :: "SearchResult list" where
  "three_hits = [hit ''library'' ''Frame'' ''drag'', hit ''library'' ''Frame'' ''dragEnabled'',
                 hit ''library'' ''Scroll'' ''dragEnabled'']"

text \<open>Two requests are issued, for "a" and then for "an"; the answer to the second
  arrives first.\<close>

definition stale_response_run :: SearchState where
  "stale_response_run =
     run example_env initialState
       [(0, Focus), (10, Change ''a''), (300, Change ''an''),
        (600, Resolved 1 [hit ''library'' ''Animation'' ''B'']),
        (700, Resolved 0 [hit ''library'' ''Frame'' ''A''])]"

text \<open>Three results are shown, the cursor is moved to the third, and the answer to the
  next query has one result.\<close>

definition stale_cursor_run :: SearchState where
  "stale_cursor_run =
     run example_env initialState
       [(0, Focus), (10, Change ''dr''), (300, Resolved 0 three_hits),
        (400, KeyDown OtherElement (plain_key ''ArrowDown'')),
        (450, KeyDown OtherElement (plain_key ''ArrowDown'')),
        (500, Change ''dra''),
        (800, Resolved 1 [hit ''library'' ''Frame'' ''drag''])]"

text \<open>The query "zzz" has no result.\<close>

definition empty_mode_run :: SearchState where
  "empty_mode_run =
     run example_env initialState [(0, Focus), (10, Change ''zzz''), (300, Resolved 0 [])]"

text \<open>The query "drag" shows three results, and the cursor is on the second.\<close>

definition showing_run :: SearchState where
  "showing_run =
     run example_env initialState
       [(0, Focus), (10, Change ''drag''), (300, Resolved 0 three_hits),
        (400, KeyDown OtherElement (plain_key ''ArrowDown''))]"

definition typing_drag :: "(nat \<times> string) list" where
  "typing_drag = [(0, ''d''), (90, ''dr''), (180, ''dra''), (370, ''drag'')]"

definition failing_run :: SearchState where
  "failing_run = run example_env initialState [(0, Focus), (10, Change ''drag'')]"

text \<open>Six results of two libraries; two pages of the second library are named by
  numbers.\<close>

definition mixed_hits :: "SearchResult list" where
  "mixed_hits =
     [hit ''motion'' ''10'' ''m1'', hit ''library'' ''Frame'' ''a'', hit ''motion'' ''Gestures'' ''d'',
      hit ''library'' ''Scroll'' ''c'', hit ''library'' ''Frame'' ''e'', hit ''motion'' ''2'' ''f'']"

text \<open>Three results of one library; the page of the second is named \<^verbatim>\<open>__proto__\<close>.\<close>

definition proto_hits :: "SearchResult list" where
  "proto_hits =
     [hit ''library'' ''Frame'' ''a'', hit ''library'' ''__proto__'' ''b'', hit ''library'' ''Frame'' ''c'']"

section \<open>The earlier component\<close>

text \<open>
  \<^verbatim>\<open>src/components/layout/dynamic/Search.tsx\<close> holds an earlier \<^verbatim>\<open>StaticSearch\<close>. Its results
  are an array from the start (\<^verbatim>\<open>useState<SearchResult[]>([])\<close>), it has neither
  suggestions nor a "no results" notice, and its request is
  \<^verbatim>\<open>
  index.search(value, { hitsPerPage: 10,
                        optionalFilters: [`library:${isMotion() ? "motion" : "library"}`] })
       .then(({ hits }) => { setResults(hits as SearchResult[]) })
       .catch(error => console.error(error))
  \<close>
  The state below is what these lines read and write.
\<close>

record EarlierSearchState =
  value_earlier :: string
  open_earlier :: bool
  results_earlier :: "SearchResult list"
  requests_earlier :: "SearchRequest list"
  consoleErrors_earlier :: "string list"

definition earlier_initialState :: EarlierSearchState where
  "earlier_initialState =
     \<lparr> value_earlier = [], open_earlier = False, results_earlier = [], requests_earlier = [],
       consoleErrors_earlier = [] \<rparr>"

definition earlier_search_invoke :: "Env \<Rightarrow> string \<Rightarrow> EarlierSearchState \<Rightarrow> EarlierSearchState" where
  "earlier_search_invoke env v s =
     s\<lparr>requests_earlier := requests_earlier s @
        [\<lparr>query = v, hitsPerPage = 10,
          optionalFilters = [''library:'' @ (if isMotion env then ''motion'' else ''library'')]\<rparr>]\<rparr>"

text \<open>\<^verbatim>\<open>.then(({ hits }) => { setResults(hits as SearchResult[]) })\<close>\<close>

definition earlier_searchResolved :: "SearchResult list \<Rightarrow> EarlierSearchState \<Rightarrow> EarlierSearchState" where
  "earlier_searchResolved hits s = s\<lparr>results_earlier := hits\<rparr>"

text \<open>\<^verbatim>\<open>.catch(error => console.error(error))\<close>\<close>

definition earlier_searchRejected :: "string \<Rightarrow> EarlierSearchState \<Rightarrow> EarlierSearchState" where
  "earlier_searchRejected error s = s\<lparr>consoleErrors_earlier := consoleErrors_earlier s @ [error]\<rparr>"

text \<open>The earlier component after the request for "drag" was answered with three results.\<close>

definition earlier_showing :: EarlierSearchState where
  "earlier_showing =
     earlier_searchResolved three_hits (earlier_search_invoke example_env ''drag'' earlier_initialState)"

section \<open>Properties of the result categoriser\<close>

subsection \<open>Grouping tabulates the buckets\<close>


lemma mset_object_define: "mset (object_define k v obj) = add_mset (k, v) (mset obj)"
  by (simp add: object_define_def)

lemma set_object_define: "set (object_define k v obj) = insert (k, v) (set obj)"
  by (auto simp: object_define_def)

lemma distinct_keys_object_define:
  "distinct (map fst (object_define k v obj)) = (k \<notin> fst ` set obj \<and> distinct (map fst obj))"
proof -
  have "mset (map fst (object_define k v obj)) = mset (k # map fst obj)"
    by (simp add: mset_object_define)
  then have "distinct (map fst (object_define k v obj)) = distinct (k # map fst obj)"
    by (rule mset_eq_imp_distinct_iff)
  then show ?thesis by simp
qed

lemma tabulates_define:
  assumes "tabulates G S obj" and "k \<notin> S" and "\<And>k'. k' \<in> S \<Longrightarrow> G' k' = G k'" and "G' k = v"
  shows "tabulates G' (insert k S) (object_define k v obj)"
proof -
  have d: "distinct (map fst obj)" and S: "fst ` set obj = S"
    and vals: "\<And>e. e \<in> set obj \<Longrightarrow> snd e = G (fst e)"
    using assms(1) by (simp_all add: tabulates_def)
  have "snd e = G' (fst e)" if "e \<in> set (object_define k v obj)" for e
  proof (cases "e = (k, v)")
    case True
    then show ?thesis using assms(4) by simp
  next
    case False
    then have e: "e \<in> set obj" using that by (simp add: set_object_define)
    then have "fst e \<in> S" using S by auto
    then show ?thesis using vals [OF e] assms(3) by simp
  qed
  then show ?thesis
    using d S assms(2) by (simp add: tabulates_def distinct_keys_object_define set_object_define)
qed

lemma tabulates_update:
  assumes "tabulates G S obj" and "k \<in> S" and "\<And>k'. k' \<in> S \<Longrightarrow> k' \<noteq> k \<Longrightarrow> G' k' = G k'"
    and "G' k = v"
  shows "tabulates G' S (map (\<lambda>e. if fst e = k then (k, v) else e) obj)"
proof -
  let ?u = "\<lambda>e. if fst e = k then (k, v) else e"
  have d: "distinct (map fst obj)" and S: "fst ` set obj = S"
    and vals: "\<And>e. e \<in> set obj \<Longrightarrow> snd e = G (fst e)"
    using assms(1) by (simp_all add: tabulates_def)
  have keys: "map fst (map ?u obj) = map fst obj"
    by (induction obj) auto
  have S': "fst ` set (map ?u obj) = S"
    using S keys by (metis list.set_map)
  have "snd e' = G' (fst e')" if "e' \<in> set (map ?u obj)" for e'
  proof -
    have "e' \<in> ?u ` set obj" using that by simp
    then obtain e where e: "e \<in> set obj" "e' = ?u e" by blast
    show ?thesis
    proof (cases "fst e = k")
      case True
      then show ?thesis using e assms(4) by simp
    next
      case False
      have "fst e \<in> S" using e(1) S by auto
      then show ?thesis using False e vals [OF e(1)] assms(3) by simp
    qed
  qed
  then show ?thesis
    using d S' unfolding tabulates_def keys by simp
qed

lemma map_of_tabulates:
  assumes "tabulates G S obj"
  shows "map_of obj k = (if k \<in> S then Some (G k) else None)"
proof (cases "k \<in> S")
  case True
  then obtain e where e: "e \<in> set obj" "fst e = k"
    using assms by (auto simp: tabulates_def)
  then have "(k, G k) \<in> set obj"
    using assms by (metis prod.collapse tabulates_def)
  then show ?thesis
    using assms True by (simp add: tabulates_def)
next
  case False
  then show ?thesis
    using assms by (auto simp: tabulates_def map_of_eq_None_iff)
qed

lemma groupBy_step_tabulates:
  assumes "tabulates (\<lambda>k. filter (\<lambda>y. f y = k) xs) (f ` set xs) obj"
    and own: "f x \<noteq> ''__proto__''"
  shows "tabulates (\<lambda>k. filter (\<lambda>y. f y = k) (xs @ [x])) (f ` set (xs @ [x])) (groupBy_step f obj x)"
proof (cases "f x \<in> f ` set xs")
  case True
  have in_keys: "f x \<in> fst ` set obj"
    using assms True by (simp add: tabulates_def)
  have step: "groupBy_step f obj x
      = map (\<lambda>e. if fst e = f x then (f x, filter (\<lambda>y. f y = f x) xs @ [x]) else e) obj"
    using True in_keys
    by (simp add: groupBy_step_def Let_def map_of_tabulates [OF assms(1)] object_set_def)
  have S: "f ` set (xs @ [x]) = f ` set xs" using True by auto
  show ?thesis
    unfolding step S
    by (rule tabulates_update [OF assms(1) True]) auto
next
  case False
  have no_key: "f x \<notin> fst ` set obj"
    using assms(1) False by (simp add: tabulates_def)
  have step: "groupBy_step f obj x = object_define (f x) [x] obj"
    using False no_key own
    by (simp add: groupBy_step_def Let_def map_of_tabulates [OF assms(1)] object_set_def)
  have S: "f ` set (xs @ [x]) = insert (f x) (f ` set xs)" by auto
  have fresh: "\<And>y. y \<in> set xs \<Longrightarrow> f y \<noteq> f x"
    using False by (metis image_eqI)
  have others: "filter (\<lambda>y. f y = k') (xs @ [x]) = filter (\<lambda>y. f y = k') xs"
    if "k' \<in> f ` set xs" for k'
  proof -
    have "f x \<noteq> k'" using that False by blast
    then show ?thesis by simp
  qed
  have new: "filter (\<lambda>y. f y = f x) (xs @ [x]) = [x]"
    using fresh by simp
  show ?thesis
    unfolding step S
    by (rule tabulates_define [OF assms(1) False others new])
qed

lemma groupBy_tabulates:
  "''__proto__'' \<notin> f ` set xs \<Longrightarrow>
     tabulates (\<lambda>k. filter (\<lambda>y. f y = k) xs) (f ` set xs) (groupBy f xs)"
proof (induction xs rule: rev_induct)
  case Nil
  then show ?case by (simp add: groupBy_def tabulates_def)
next
  case (snoc x xs)
  have ih: "tabulates (\<lambda>k. filter (\<lambda>y. f y = k) xs) (f ` set xs) (groupBy f xs)"
    using snoc by simp
  have own: "f x \<noteq> ''__proto__''" using snoc.prems by auto
  have "groupBy f (xs @ [x]) = groupBy_step f (groupBy f xs) x"
    by (simp add: groupBy_def)
  then show ?case using groupBy_step_tabulates [OF ih own] by simp
qed

text \<open>An element whose key is \<^verbatim>\<open>__proto__\<close> leaves the result as it is.\<close>

lemma groupBy_step_proto:
  assumes "''__proto__'' \<notin> fst ` set obj" and "f x = ''__proto__''"
  shows "groupBy_step f obj x = obj"
proof -
  have "map_of obj ''__proto__'' = None"
    using assms(1) by (simp add: map_of_eq_None_iff)
  then show ?thesis
    using assms by (simp add: groupBy_step_def Let_def object_set_def)
qed

lemma groupBy_drops_proto:
  "groupBy f xs = groupBy f (filter (\<lambda>y. f y \<noteq> ''__proto__'') xs)"
proof (induction xs rule: rev_induct)
  case Nil
  then show ?case by simp
next
  case (snoc x xs)
  let ?own = "filter (\<lambda>y. f y \<noteq> ''__proto__'') xs"
  have free: "''__proto__'' \<notin> f ` set ?own" by auto
  have step: "groupBy f (xs @ [x]) = groupBy_step f (groupBy f ?own) x"
    using snoc by (simp add: groupBy_def)
  show ?case
  proof (cases "f x = ''__proto__''")
    case True
    have "fst ` set (groupBy f ?own) = f ` set ?own"
      using groupBy_tabulates [OF free] by (simp add: tabulates_def)
    then have "''__proto__'' \<notin> fst ` set (groupBy f ?own)"
      using free by simp
    then have "groupBy_step f (groupBy f ?own) x = groupBy f ?own"
      using True by (rule groupBy_step_proto)
    then show ?thesis using True step by simp
  next
    case False
    have "groupBy f (?own @ [x]) = groupBy_step f (groupBy f ?own) x"
      by (simp add: groupBy_def)
    then show ?thesis using False step by simp
  qed
qed

lemma tabulates_cong:
  assumes "tabulates G S obj" and "\<And>k. k \<in> S \<Longrightarrow> G' k = G k"
  shows "tabulates G' S obj"
proof -
  have "snd e = G' (fst e)" if "e \<in> set obj" for e
  proof -
    have "fst e \<in> S" "snd e = G (fst e)" using assms(1) that by (auto simp: tabulates_def)
    then show ?thesis using assms(2) by simp
  qed
  then show ?thesis using assms(1) by (simp add: tabulates_def)
qed

lemma groupBy_tabulates_own:
  "tabulates (\<lambda>k. filter (\<lambda>y. f y = k) xs) (f ` set xs - {''__proto__''}) (groupBy f xs)"
proof -
  let ?own = "filter (\<lambda>y. f y \<noteq> ''__proto__'') xs"
  have free: "''__proto__'' \<notin> f ` set ?own" by auto
  have keys: "f ` set ?own = f ` set xs - {''__proto__''}" by auto
  have "tabulates (\<lambda>k. filter (\<lambda>y. f y = k) ?own) (f ` set xs - {''__proto__''}) (groupBy f ?own)"
    using groupBy_tabulates [OF free] unfolding keys .
  then have "tabulates (\<lambda>k. filter (\<lambda>y. f y = k) xs) (f ` set xs - {''__proto__''}) (groupBy f ?own)"
  proof (rule tabulates_cong)
    fix k assume "k \<in> f ` set xs - {''__proto__''}"
    then have "k \<noteq> ''__proto__''" by simp
    then have "(\<lambda>y. f y \<noteq> ''__proto__'' \<and> f y = k) = (\<lambda>y. f y = k)" by auto
    then show "filter (\<lambda>y. f y = k) xs = filter (\<lambda>y. f y = k) ?own"
      by (simp add: conj_commute)
  qed
  then show ?thesis using groupBy_drops_proto [of f xs] by simp
qed

lemma mset_concat_filters:
  "distinct ks \<Longrightarrow>
     mset (concat (map (\<lambda>k. filter (\<lambda>y. f y = k) xs) ks)) = mset (filter (\<lambda>y. f y \<in> set ks) xs)"
proof (induction ks)
  case Nil
  then show ?case by simp
next
  case (Cons k ks)
  have split: "mset (filter (\<lambda>y. f y = k) xs) + mset (filter (\<lambda>y. f y \<in> set ks) xs)
      = mset (filter (\<lambda>y. f y \<in> set (k # ks)) xs)"
    using Cons.prems by (induction xs) auto
  show ?case using Cons split by simp
qed

lemma tabulates_as_map:
  assumes "tabulates G S obj"
  shows "obj = map (\<lambda>k. (k, G k)) (map fst obj)"
  using assms by (auto simp: tabulates_def intro!: nth_equalityI) (metis nth_mem prod.collapse)

lemma remdups_adj_replicate_append:
  "x \<notin> set ys \<Longrightarrow> remdups_adj (replicate n x @ ys) = (if n = 0 then [] else [x]) @ remdups_adj ys"
proof (induction n)
  case 0
  then show ?case by simp
next
  case (Suc n)
  then show ?case by (cases n; cases ys) auto
qed

lemma distinct_remdups_adj_runs:
  "distinct (map fst kns) \<Longrightarrow>
     distinct (remdups_adj (concat (map (\<lambda>e. replicate (snd e) (fst e)) kns)))"
proof (induction kns)
  case Nil
  then show ?case by simp
next
  case (Cons e kns)
  let ?rest = "concat (map (\<lambda>e. replicate (snd e) (fst e)) kns)"
  have sub: "set ?rest \<subseteq> fst ` set kns" by force
  have notin: "fst e \<notin> set ?rest" using Cons.prems sub by auto
  show ?case
    using Cons notin by (simp add: remdups_adj_replicate_append)
qed

text \<open>Buckets of a list by a key, in any order of the keys.\<close>

lemma buckets_permutation_contiguous:
  assumes "tabulates (\<lambda>k. filter (\<lambda>y. kf y = k) xs) (kf ` set xs) obj"
  shows "mset (concat (map snd obj)) = mset xs"
    and "contiguous_by kf (concat (map snd obj))"
proof -
  let ?G = "\<lambda>k. filter (\<lambda>y. kf y = k) xs"
  have d: "distinct (map fst obj)" and S: "set (map fst obj) = kf ` set xs"
    using assms by (simp_all add: tabulates_def)
  have obj: "obj = map (\<lambda>k. (k, ?G k)) (map fst obj)"
    by (rule tabulates_as_map [OF assms])
  have flat: "concat (map snd obj) = concat (map ?G (map fst obj))"
    by (subst obj) (simp add: comp_def)
  have "mset (concat (map snd obj)) = mset (filter (\<lambda>y. kf y \<in> set (map fst obj)) xs)"
    unfolding flat by (rule mset_concat_filters [OF d])
  also have "\<dots> = mset xs" unfolding S by simp
  finally show "mset (concat (map snd obj)) = mset xs" .
  have keys: "map kf (concat (map ?G ks)) = concat (map (\<lambda>e. replicate (snd e) (fst e)) (map (\<lambda>k. (k, length (?G k))) ks))" for ks
  proof (induction ks)
    case Nil
    then show ?case by simp
  next
    case (Cons k ks)
    have "map kf (?G k) = replicate (length (?G k)) k"
      by (induction xs) auto
    then show ?case using Cons by simp
  qed
  have "distinct (map fst (map (\<lambda>k. (k, length (?G k))) (map fst obj)))"
    using d by (simp add: comp_def)
  then show "contiguous_by kf (concat (map snd obj))"
    unfolding contiguous_by_def flat keys by (rule distinct_remdups_adj_runs)
qed

lemma foldl_object_set_tabulates:
  assumes "tabulates G S acc" and "distinct (map fst entries)" and "fst ` set entries \<inter> S = {}"
    and "\<And>e. e \<in> set entries \<Longrightarrow> h (snd e) = G (fst e)"
    and "''__proto__'' \<notin> fst ` set entries"
  shows "tabulates G (S \<union> fst ` set entries)
           (foldl (\<lambda>obj (k, v). object_set k (h v) obj) acc entries)"
  using assms
proof (induction entries arbitrary: acc S)
  case Nil
  then show ?case by simp
next
  case (Cons e entries)
  obtain k v where e: "e = (k, v)" by (cases e)
  have fresh: "k \<notin> S" using Cons.prems(3) by (auto simp: e)
  have own: "k \<noteq> ''__proto__''" using Cons.prems(5) by (auto simp: e)
  have keys: "fst ` set acc = S" using Cons.prems(1) by (simp add: tabulates_def)
  have hv: "h v = G k" using Cons.prems(4) [of e] by (simp add: e)
  have set_is_define: "object_set k (h v) acc = object_define k (h v) acc"
    using fresh keys own by (simp add: object_set_def)
  have acc': "tabulates G (insert k S) (object_define k (h v) acc)"
    by (rule tabulates_define [OF Cons.prems(1) fresh]) (simp_all add: hv)
  have d: "distinct (map fst entries)" using Cons.prems(2) by simp
  have disj: "fst ` set entries \<inter> insert k S = {}"
    using Cons.prems(2,3) by (auto simp: e)
  have rest: "''__proto__'' \<notin> fst ` set entries" using Cons.prems(5) by simp
  have "tabulates G (insert k S \<union> fst ` set entries)
          (foldl (\<lambda>obj (k, v). object_set k (h v) obj) (object_define k (h v) acc) entries)"
    by (rule Cons.IH [OF acc' d disj _ rest]) (simp add: Cons.prems(4))
  then show ?case
    by (simp add: e set_is_define)
qed

lemma categorisedResults_tabulates:
  "tabulates (\<lambda>lib. groupBy page (filter (\<lambda>r. library r = lib) rs))
     (library ` set rs - {''__proto__''}) (categorisedResults (Some rs))"
proof -
  let ?L = "groupBy library rs"
  let ?G = "\<lambda>lib. groupBy page (filter (\<lambda>r. library r = lib) rs)"
  have L: "tabulates (\<lambda>k. filter (\<lambda>r. library r = k) rs) (library ` set rs - {''__proto__''}) ?L"
    by (rule groupBy_tabulates_own)
  have empty: "tabulates ?G {} []" by (simp add: tabulates_def)
  have d: "distinct (map fst ?L)" and keys: "fst ` set ?L = library ` set rs - {''__proto__''}"
    and vals: "\<And>e. e \<in> set ?L \<Longrightarrow> snd e = filter (\<lambda>r. library r = fst e) rs"
    using L by (simp_all add: tabulates_def)
  have own: "''__proto__'' \<notin> fst ` set ?L" unfolding keys by simp
  have "tabulates ?G ({} \<union> fst ` set ?L)
          (foldl (\<lambda>obj (k, v). object_set k (groupBy page v) obj) [] ?L)"
    by (rule foldl_object_set_tabulates [OF empty d _ _ own]) (simp_all add: vals)
  then show ?thesis
    by (simp add: categorisedResults_def Let_def keys)
qed

lemma getDeepValues_labelled: "getDeepValues obj = concat (map snd (labelled_buckets obj))"
  by (induction obj) (simp_all add: getDeepValues_def labelled_buckets_def comp_def case_prod_beta)

lemma mem_labelled_buckets:
  "q \<in> set (labelled_buckets obj) \<longleftrightarrow>
     (\<exists>e \<in> set obj. \<exists>c \<in> set (snd e). q = ((fst e, fst c), snd c))"
  by (auto simp: labelled_buckets_def)

lemma distinct_labelled_buckets:
  assumes "distinct (map fst obj)" and "\<And>e. e \<in> set obj \<Longrightarrow> distinct (map fst (snd e))"
  shows "distinct (map fst (labelled_buckets obj))"
  using assms
proof (induction obj)
  case Nil
  then show ?case by (simp add: labelled_buckets_def)
next
  case (Cons e obj)
  let ?head = "map (\<lambda>c. ((fst e, fst c), snd c)) (snd e)"
  have tail: "distinct (map fst (labelled_buckets obj))"
    using Cons by simp
  have head_keys: "map fst ?head = map (Pair (fst e)) (map fst (snd e))"
    by simp
  have "distinct (map fst (snd e))" using Cons.prems(2) [of e] by simp
  then have head: "distinct (map fst ?head)"
    unfolding head_keys by (simp only: distinct_map) (simp add: inj_on_def)
  have fresh: "fst e \<notin> fst ` set obj" using Cons.prems(1) by simp
  have disj: "set (map fst ?head) \<inter> set (map fst (labelled_buckets obj)) = {}"
  proof (rule ccontr)
    assume "set (map fst ?head) \<inter> set (map fst (labelled_buckets obj)) \<noteq> {}"
    then obtain k where k1: "k \<in> set (map fst ?head)" and k2: "k \<in> set (map fst (labelled_buckets obj))"
      by blast
    have "fst k = fst e" using k1 unfolding head_keys by auto
    moreover obtain q where q: "q \<in> set (labelled_buckets obj)" "k = fst q"
      using k2 by auto
    then obtain e' c where "e' \<in> set obj" "q = ((fst e', fst c), snd c)"
      using mem_labelled_buckets [of q obj] by blast
    then have "fst k \<in> fst ` set obj" using q(2) by simp
    ultimately show False using fresh by simp
  qed
  have unfold: "labelled_buckets (e # obj) = ?head @ labelled_buckets obj"
    by (simp add: labelled_buckets_def)
  show ?case
    unfolding unfold map_append distinct_append using head tail disj by blast
qed

lemma labelled_buckets_tabulates:
  fixes f g :: "'a \<Rightarrow> string"
  assumes P: "tabulates (\<lambda>a. groupBy g (filter (\<lambda>r. f r = a) zs)) S P"
    and sub: "f ` set zs \<subseteq> S" and free: "''__proto__'' \<notin> g ` set zs"
  shows "tabulates (\<lambda>k. filter (\<lambda>r. (f r, g r) = k) zs) ((\<lambda>r. (f r, g r)) ` set zs)
     (labelled_buckets P)"
proof -
  let ?X = "\<lambda>a. filter (\<lambda>r. f r = a) zs"
  have dP: "distinct (map fst P)" and kP: "fst ` set P = S"
    and vP: "\<And>e. e \<in> set P \<Longrightarrow> snd e = groupBy g (?X (fst e))"
    using P by (simp_all add: tabulates_def)
  have inner: "tabulates (\<lambda>b. filter (\<lambda>r. g r = b) (?X a)) (g ` set (?X a)) (groupBy g (?X a))" for a
  proof (rule groupBy_tabulates)
    show "''__proto__'' \<notin> g ` set (?X a)" using free by auto
  qed
  have d: "distinct (map fst (labelled_buckets P))"
  proof (rule distinct_labelled_buckets [OF dP])
    fix e assume "e \<in> set P"
    then show "distinct (map fst (snd e))"
      using vP inner [of "fst e"] by (simp add: tabulates_def)
  qed
  have vals: "snd q = filter (\<lambda>r. (f r, g r) = fst q) zs"
    if qin: "q \<in> set (labelled_buckets P)" for q
  proof -
    obtain e c where e: "e \<in> set P" and c: "c \<in> set (snd e)" and q: "q = ((fst e, fst c), snd c)"
      using qin mem_labelled_buckets [of q P] by blast
    have "c \<in> set (groupBy g (?X (fst e)))" using c vP [OF e] by simp
    then have "snd c = filter (\<lambda>r. g r = fst c) (?X (fst e))"
      using inner [of "fst e"] by (simp add: tabulates_def)
    then show ?thesis
      by (simp add: q conj_commute)
  qed
  have keys_of: "fst ` set (snd e) = g ` set (?X (fst e))" if "e \<in> set P" for e
    using vP [OF that] inner [of "fst e"] by (simp add: tabulates_def)
  have keys: "fst ` set (labelled_buckets P) = (\<lambda>r. (f r, g r)) ` set zs"
  proof (intro set_eqI iffI)
    fix k assume "k \<in> fst ` set (labelled_buckets P)"
    then obtain q where q: "q \<in> set (labelled_buckets P)" "k = fst q" by blast
    then obtain e c where e: "e \<in> set P" and c: "c \<in> set (snd e)" and qe: "q = ((fst e, fst c), snd c)"
      using mem_labelled_buckets [of q P] by blast
    have "fst c \<in> g ` set (?X (fst e))" using c keys_of [OF e] by blast
    then obtain r where r: "r \<in> set zs" "f r = fst e" "g r = fst c" by auto
    have "k = (f r, g r)" using q(2) qe r(2,3) by simp
    then show "k \<in> (\<lambda>r. (f r, g r)) ` set zs"
      using r(1) by blast
  next
    fix k assume "k \<in> (\<lambda>r. (f r, g r)) ` set zs"
    then obtain r where r: "r \<in> set zs" "k = (f r, g r)" by blast
    have "f r \<in> fst ` set P" using r(1) kP sub by blast
    then obtain e where e: "e \<in> set P" "fst e = f r" by auto
    have "g r \<in> g ` set (?X (fst e))" using r(1) e(2) by simp
    then have "g r \<in> fst ` set (snd e)" using keys_of [OF e(1)] by simp
    then obtain c where c: "c \<in> set (snd e)" "fst c = g r" by auto
    have "((fst e, fst c), snd c) \<in> set (labelled_buckets P)"
      using e(1) c(1) mem_labelled_buckets [of "((fst e, fst c), snd c)" P] by blast
    moreover have "k = fst ((fst e, fst c), snd c)"
      using r(2) e(2) c(2) by simp
    ultimately show "k \<in> fst ` set (labelled_buckets P)"
      by (rule rev_image_eqI)
  qed
  show ?thesis
    using d keys vals by (simp add: tabulates_def)
qed

text \<open>The buckets that a two-level grouping keeps are those of the elements neither of
  whose keys is \<^verbatim>\<open>__proto__\<close>.\<close>

lemma kept_buckets_tabulates:
  fixes f g :: "'a \<Rightarrow> string"
  assumes P: "tabulates (\<lambda>a. groupBy g (filter (\<lambda>r. f r = a) xs)) (f ` set xs - {''__proto__''}) P"
  shows "tabulates
      (\<lambda>k. filter (\<lambda>r. (f r, g r) = k) (filter (\<lambda>r. f r \<noteq> ''__proto__'' \<and> g r \<noteq> ''__proto__'') xs))
      ((\<lambda>r. (f r, g r)) ` set (filter (\<lambda>r. f r \<noteq> ''__proto__'' \<and> g r \<noteq> ''__proto__'') xs))
      (labelled_buckets P)"
proof -
  let ?zs = "filter (\<lambda>r. f r \<noteq> ''__proto__'' \<and> g r \<noteq> ''__proto__'') xs"
  have P': "tabulates (\<lambda>a. groupBy g (filter (\<lambda>r. f r = a) ?zs)) (f ` set xs - {''__proto__''}) P"
    using P
  proof (rule tabulates_cong)
    fix a assume "a \<in> f ` set xs - {''__proto__''}"
    then have a: "a \<noteq> ''__proto__''" by simp
    have "filter (\<lambda>r. g r \<noteq> ''__proto__'') (filter (\<lambda>r. f r = a) xs) = filter (\<lambda>r. f r = a) ?zs"
      unfolding filter_filter using a by (intro filter_cong refl) auto
    then show "groupBy g (filter (\<lambda>r. f r = a) ?zs) = groupBy g (filter (\<lambda>r. f r = a) xs)"
      using groupBy_drops_proto [of g "filter (\<lambda>r. f r = a) xs"] by simp
  qed
  show ?thesis
    by (rule labelled_buckets_tabulates [OF P']) auto
qed

lemma flatten_categorised_permutation:
  "mset (flattenSearchResults (categorisedResults (Some rs)))
     = mset (filter (\<lambda>r. library r \<noteq> ''__proto__'' \<and> page r \<noteq> ''__proto__'') rs)"
  unfolding flattenSearchResults_def getDeepValues_labelled
  by (rule buckets_permutation_contiguous(1)
      [where kf = "\<lambda>r. (library r, page r)",
       OF kept_buckets_tabulates [OF categorisedResults_tabulates]])

lemma flatten_categorised_contiguous:
  "contiguous_by (\<lambda>r. (library r, page r)) (flattenSearchResults (categorisedResults (Some rs)))"
  unfolding flattenSearchResults_def getDeepValues_labelled
  by (rule buckets_permutation_contiguous(2)
      [where kf = "\<lambda>r. (library r, page r)",
       OF kept_buckets_tabulates [OF categorisedResults_tabulates]])

subsection \<open>Array indices are canonical numerals\<close>


lemma decimal_value_snoc: "decimal_value (k @ [c]) = 10 * decimal_value k + int (digit_value c)"
  by (simp add: decimal_value_def)

lemma digit_value_bound: "is_digit c \<Longrightarrow> digit_value c < 10"
  by (auto simp: is_digit_def digit_value_def)

lemma digit_value_inj:
  assumes "is_digit c" and "is_digit d" and "digit_value c = digit_value d"
  shows "c = d"
proof -
  have lo: "of_char CHR ''0'' \<le> (of_char c :: nat)" "of_char CHR ''0'' \<le> (of_char d :: nat)"
    using assms(1,2) by (auto simp: is_digit_def)
  then have "(of_char c :: nat) = of_char d"
    using assms(3) unfolding digit_value_def by linarith
  then show ?thesis by simp
qed

lemma digit_value_zero: "is_digit c \<Longrightarrow> digit_value c = 0 \<Longrightarrow> c = CHR ''0''"
  by (auto simp: is_digit_def digit_value_def)

lemma decimal_value_upper: "list_all is_digit k \<Longrightarrow> decimal_value k < 10 ^ length k"
proof (induction k rule: rev_induct)
  case Nil
  then show ?case by (simp add: decimal_value_def)
next
  case (snoc c k)
  then have "decimal_value k < 10 ^ length k" and "int (digit_value c) < 10"
    using digit_value_bound [of c] by simp_all
  then have "10 * decimal_value k + int (digit_value c) < 10 * 10 ^ length k"
    by linarith
  then show ?case by (simp add: decimal_value_snoc)
qed

lemma decimal_value_lower:
  "list_all is_digit k \<Longrightarrow> k \<noteq> [] \<Longrightarrow> hd k \<noteq> CHR ''0'' \<Longrightarrow> 10 ^ (length k - 1) \<le> decimal_value k"
proof (induction k rule: rev_induct)
  case Nil
  then show ?case by simp
next
  case (snoc c k)
  show ?case
  proof (cases "k = []")
    case True
    then have "digit_value c \<noteq> 0"
      using snoc.prems digit_value_zero [of c] by auto
    then show ?thesis using True by (simp add: decimal_value_snoc decimal_value_def)
  next
    case False
    then have "10 ^ (length k - 1) \<le> decimal_value k"
      using snoc by simp
    then have "10 * 10 ^ (length k - 1) \<le> 10 * decimal_value k + int (digit_value c)"
      by linarith
    moreover have "(10::int) * 10 ^ (length k - 1) = 10 ^ length k"
      using False by (cases k) simp_all
    ultimately show ?thesis by (simp add: decimal_value_snoc)
  qed
qed

lemma decimal_value_inj_same_length:
  "list_all is_digit a \<Longrightarrow> list_all is_digit b \<Longrightarrow> length a = length b \<Longrightarrow>
     decimal_value a = decimal_value b \<Longrightarrow> a = b"
proof (induction a arbitrary: b rule: rev_induct)
  case Nil
  then show ?case by simp
next
  case (snoc c a)
  then obtain d b' where b: "b = b' @ [d]"
    by (cases b rule: rev_cases) auto
  have digits: "digit_value c < 10" "digit_value d < 10"
    using snoc.prems(1,2) by (simp_all add: b digit_value_bound)
  have "10 * decimal_value a + int (digit_value c) = 10 * decimal_value b' + int (digit_value d)"
    using snoc.prems(4) by (simp add: b decimal_value_snoc)
  then have eq: "decimal_value a = decimal_value b'" "digit_value c = digit_value d"
    using digits by presburger+
  have "a = b'"
    using snoc.IH [of b'] snoc.prems eq(1) by (simp add: b)
  moreover have "c = d"
    using digit_value_inj [OF _ _ eq(2)] snoc.prems(1,2) by (simp add: b)
  ultimately show ?case by (simp add: b)
qed

lemma array_index_value_inj:
  assumes "is_array_index a" and "is_array_index b" and "decimal_value a = decimal_value b"
  shows "a = b"
proof -
  have da: "list_all is_digit a" "a \<noteq> []" "a = ''0'' \<or> hd a \<noteq> CHR ''0''"
    and db: "list_all is_digit b" "b \<noteq> []" "b = ''0'' \<or> hd b \<noteq> CHR ''0''"
    using assms(1,2) by (simp_all add: is_array_index_def)
  have zero: "decimal_value ''0'' = 0" by (simp add: decimal_value_def digit_value_def)
  have positive: "0 < decimal_value k" if "list_all is_digit k" "k \<noteq> []" "hd k \<noteq> CHR ''0''" for k
  proof -
    have "(0::int) < 10 ^ (length k - 1)" by simp
    then show ?thesis using decimal_value_lower [OF that] by linarith
  qed
  show ?thesis
  proof (cases "a = ''0'' \<or> b = ''0''")
    case True
    show ?thesis
    proof (rule ccontr)
      assume ne: "a \<noteq> b"
      have "0 < decimal_value a \<or> 0 < decimal_value b"
        using True ne da db positive by metis
      then show False using True assms(3) zero by auto
    qed
  next
    case False
    then have ha: "hd a \<noteq> CHR ''0''" and hb: "hd b \<noteq> CHR ''0''" using da db by auto
    have short: "decimal_value x < decimal_value y"
      if "list_all is_digit x" "list_all is_digit y" "y \<noteq> []" "hd y \<noteq> CHR ''0''"
        "length x < length y" for x y
    proof -
      have "decimal_value x < 10 ^ length x" by (rule decimal_value_upper [OF that(1)])
      also have "\<dots> \<le> (10::int) ^ (length y - 1)"
        using that(5) by (intro power_increasing) auto
      also have "\<dots> \<le> decimal_value y" by (rule decimal_value_lower [OF that(2,3,4)])
      finally show ?thesis .
    qed
    have "length a = length b"
    proof (rule ccontr)
      assume "length a \<noteq> length b"
      then consider "length a < length b" | "length b < length a" by linarith
      then show False
      proof cases
        case 1
        then show ?thesis using short [OF da(1) db(1,2) hb] assms(3) by simp
      next
        case 2
        then show ?thesis using short [OF db(1) da(1,2) ha] assms(3) by simp
      qed
    qed
    then show ?thesis
      by (rule decimal_value_inj_same_length [OF da(1) db(1) _ assms(3)])
  qed
qed


subsection \<open>The order of the keys\<close>


lemma keys_object_define: "map fst (object_define k v obj) = insert_key k (map fst obj)"
  by (simp add: object_define_def insert_key_def filter_map comp_def)

lemma set_insert_key: "set (insert_key k ks) = insert k (set ks)"
  by (auto simp: insert_key_def)

lemma distinct_insert_key: "distinct ks \<Longrightarrow> k \<notin> set ks \<Longrightarrow> distinct (insert_key k ks)"
  by (auto simp: insert_key_def)

lemma ordered_insert_key:
  assumes "sorted_wrt enumeration_order ks" and "k \<notin> set ks"
  shows "sorted_wrt enumeration_order (insert_key k ks)"
proof (cases "is_array_index k")
  case False
  then show ?thesis
    using assms(1) by (simp add: insert_key_def sorted_wrt_append enumeration_order_def)
next
  case True
  let ?A = "filter (\<lambda>k'. enumerated_before k' k) ks"
  let ?B = "filter (\<lambda>k'. \<not> enumerated_before k' k) ks"
  have A: "sorted_wrt enumeration_order ?A" and B: "sorted_wrt enumeration_order ?B"
    using assms(1) by (simp_all add: sorted_wrt_filter)
  have Ak: "enumeration_order a k" if "a \<in> set ?A" for a
    using that by (simp add: enumeration_order_def enumerated_before_def)
  have kB: "enumeration_order k b" if "b \<in> set ?B" for b
  proof -
    have b: "b \<in> set ks" "\<not> enumerated_before b k" using that by simp_all
    have "decimal_value k < decimal_value b" if ib: "is_array_index b"
    proof -
      have "\<not> decimal_value b < decimal_value k"
        using b(2) ib by (simp add: enumerated_before_def)
      moreover have "decimal_value b \<noteq> decimal_value k"
        using array_index_value_inj [OF ib True] b(1) assms(2) by auto
      ultimately show ?thesis by linarith
    qed
    then show ?thesis using True by (simp add: enumeration_order_def)
  qed
  have AB: "enumeration_order a b" if "a \<in> set ?A" "b \<in> set ?B" for a b
  proof -
    have a: "is_array_index a" "decimal_value a < decimal_value k"
      using that(1) by (simp_all add: enumerated_before_def)
    have "decimal_value k < decimal_value b" if "is_array_index b"
      using kB [OF \<open>b \<in> set ?B\<close>] that by (simp add: enumeration_order_def)
    then show ?thesis using a by (auto simp: enumeration_order_def)
  qed
  show ?thesis
    using True A B Ak kB AB by (simp add: insert_key_def sorted_wrt_append)
qed

lemma insert_key_last:
  assumes "\<And>a. a \<in> set ks \<Longrightarrow> enumeration_order a k"
  shows "insert_key k ks = ks @ [k]"
proof (cases "is_array_index k")
  case False
  then show ?thesis by (simp add: insert_key_def)
next
  case True
  have "enumerated_before a k" if "a \<in> set ks" for a
    using assms [OF that] True by (simp add: enumeration_order_def enumerated_before_def)
  then have "filter (\<lambda>k'. enumerated_before k' k) ks = ks"
    and "filter (\<lambda>k'. \<not> enumerated_before k' k) ks = []"
    by simp_all
  then show ?thesis using True by (simp add: insert_key_def)
qed

lemma foldl_key_step_ordered:
  "sorted_wrt enumeration_order (acc @ ks) \<Longrightarrow> distinct (acc @ ks) \<Longrightarrow>
   ''__proto__'' \<notin> set ks \<Longrightarrow>
     foldl key_step acc ks = acc @ ks"
proof (induction ks arbitrary: acc)
  case Nil
  then show ?case by simp
next
  case (Cons k ks)
  have fresh: "k \<notin> set acc" using Cons.prems(2) by auto
  have own: "k \<noteq> ''__proto__''" using Cons.prems(3) by auto
  have "enumeration_order a k" if "a \<in> set acc" for a
    using Cons.prems(1) that by (simp add: sorted_wrt_append)
  then have step: "key_step acc k = acc @ [k]"
    using fresh own by (simp add: key_step_def insert_key_last)
  have "foldl key_step (acc @ [k]) ks = (acc @ [k]) @ ks"
    using Cons.prems by (intro Cons.IH) simp_all
  then show ?case by (simp add: step)
qed

lemma foldl_key_step_invariant:
  "sorted_wrt enumeration_order acc \<Longrightarrow> distinct acc \<Longrightarrow>
     sorted_wrt enumeration_order (foldl key_step acc ks) \<and> distinct (foldl key_step acc ks)
     \<and> set (foldl key_step acc ks) = set acc \<union> (set ks - {''__proto__''})"
proof (induction ks arbitrary: acc)
  case Nil
  then show ?case by simp
next
  case (Cons k ks)
  have step: "sorted_wrt enumeration_order (key_step acc k)" "distinct (key_step acc k)"
    "set (key_step acc k) = set acc \<union> ({k} - {''__proto__''})"
    using Cons.prems
    by (auto simp: key_step_def ordered_insert_key distinct_insert_key set_insert_key)
  show ?case
    using Cons.IH [OF step(1,2)] step(3) by auto
qed

lemma foldl_key_step_replicate:
  "0 < n \<Longrightarrow> foldl key_step acc (replicate n k) = key_step acc k"
proof (induction n arbitrary: acc)
  case 0
  then show ?case by simp
next
  case (Suc n)
  have again: "key_step (key_step acc k) k = key_step acc k"
    by (simp add: key_step_def set_insert_key)
  show ?case
  proof (cases n)
    case 0
    then show ?thesis by simp
  next
    case (Suc m)
    then have "foldl key_step (key_step acc k) (replicate n k) = key_step (key_step acc k) k"
      using Suc.IH by simp
    then show ?thesis by (simp add: again)
  qed
qed

lemma foldl_key_step_runs:
  "(\<And>k. k \<in> set ks \<Longrightarrow> 0 < n k) \<Longrightarrow>
     foldl key_step acc (concat (map (\<lambda>k. replicate (n k) k) ks)) = foldl key_step acc ks"
proof (induction ks arbitrary: acc)
  case Nil
  then show ?case by simp
next
  case (Cons k ks)
  have "0 < n k" using Cons.prems by simp
  then show ?case
    using Cons by (simp add: foldl_key_step_replicate)
qed

lemma keys_groupBy_step:
  "map fst (groupBy_step f obj x) = key_step (map fst obj) (f x)"
proof (cases "map_of obj (f x)")
  case None
  then have "f x \<notin> fst ` set obj" by (simp add: map_of_eq_None_iff)
  then show ?thesis
    using None
    by (simp add: groupBy_step_def Let_def key_step_def object_set_def keys_object_define)
next
  case (Some b)
  then have mem: "f x \<in> fst ` set obj" by (metis map_of_eq_None_iff option.distinct(1))
  have "map fst (map (\<lambda>e. if fst e = f x then (f x, b @ [x]) else e) obj) = map fst obj"
    by (induction obj) auto
  then show ?thesis
    using Some mem by (simp add: groupBy_step_def Let_def key_step_def object_set_def)
qed

lemma keys_groupBy: "map fst (groupBy f xs) = foldl key_step [] (map f xs)"
proof (induction xs rule: rev_induct)
  case Nil
  then show ?case by (simp add: groupBy_def)
next
  case (snoc x xs)
  have "groupBy f (xs @ [x]) = groupBy_step f (groupBy f xs) x"
    by (simp add: groupBy_def)
  then show ?case using snoc by (simp add: keys_groupBy_step)
qed

lemma groupBy_closed_form:
  "groupBy f xs = map (\<lambda>k. (k, filter (\<lambda>y. f y = k) xs)) (foldl key_step [] (map f xs))"
  using tabulates_as_map [OF groupBy_tabulates_own [of f xs]] by (simp add: keys_groupBy)

lemma keys_groupBy_ordered:
  "sorted_wrt enumeration_order (map fst (groupBy f xs))" "distinct (map fst (groupBy f xs))"
  "set (map fst (groupBy f xs)) = f ` set xs - {''__proto__''}"
  using foldl_key_step_invariant [of "[]" "map f xs"] by (simp_all add: keys_groupBy)

subsection \<open>Grouping what is already grouped\<close>


lemma filter_concat_buckets:
  assumes "distinct ks" and "\<And>k' y. k' \<in> set ks \<Longrightarrow> y \<in> set (B k') \<Longrightarrow> f y = k'"
  shows "filter (\<lambda>y. f y = k) (concat (map B ks)) = (if k \<in> set ks then B k else [])"
  using assms
proof (induction ks)
  case Nil
  then show ?case by simp
next
  case (Cons a ks)
  have tail: "filter (\<lambda>y. f y = k) (concat (map B ks)) = (if k \<in> set ks then B k else [])"
    using Cons by simp
  have head: "filter (\<lambda>y. f y = k) (B a) = (if a = k then B a else [])"
  proof (cases "a = k")
    case True
    have "\<And>y. y \<in> set (B a) \<Longrightarrow> f y = k" using Cons.prems(2) [of a] True by simp
    then show ?thesis using True by simp
  next
    case False
    have "\<And>y. y \<in> set (B a) \<Longrightarrow> f y \<noteq> k" using Cons.prems(2) [of a] False by auto
    then show ?thesis using False by simp
  qed
  have "a \<notin> set ks" using Cons.prems(1) by simp
  then show ?case using head tail by auto
qed

lemma keys_concat_buckets:
  assumes "\<And>k y. k \<in> set ks \<Longrightarrow> y \<in> set (B k) \<Longrightarrow> f y = k"
  shows "map f (concat (map B ks)) = concat (map (\<lambda>k. replicate (length (B k)) k) ks)"
  using assms
proof (induction ks)
  case Nil
  then show ?case by simp
next
  case (Cons a ks)
  have "map f (B a) = replicate (length (B a)) a"
    using Cons.prems [of a] by (simp add: map_replicate_const [symmetric] cong: map_cong)
  then show ?case using Cons by simp
qed

lemma regroup:
  assumes "sorted_wrt enumeration_order ks" and "distinct ks" and own: "''__proto__'' \<notin> set ks"
    and nonempty: "\<And>k. k \<in> set ks \<Longrightarrow> B k \<noteq> []"
    and labelled: "\<And>k y. k \<in> set ks \<Longrightarrow> y \<in> set (B k) \<Longrightarrow> f y = k"
  shows "groupBy f (concat (map B ks)) = map (\<lambda>k. (k, B k)) ks"
proof -
  let ?ys = "concat (map B ks)"
  have kc: "map f ?ys = concat (map (\<lambda>k. replicate (length (B k)) k) ks)"
    by (rule keys_concat_buckets) (rule labelled)
  have "foldl key_step [] (map f ?ys)
      = foldl key_step [] (concat (map (\<lambda>k. replicate (length (B k)) k) ks))"
    by (simp only: kc)
  also have "\<dots> = foldl key_step [] ks"
    by (rule foldl_key_step_runs) (simp add: nonempty)
  also have "\<dots> = [] @ ks"
    by (rule foldl_key_step_ordered) (simp_all add: assms(1,2) own)
  finally have keys: "foldl key_step [] (map f ?ys) = ks" by simp
  have "map (\<lambda>k. (k, filter (\<lambda>y. f y = k) ?ys)) ks = map (\<lambda>k. (k, B k)) ks"
    by (rule map_cong [OF refl]) (simp add: filter_concat_buckets [of ks B f, OF assms(2) labelled])
  then show ?thesis
    by (simp add: groupBy_closed_form [of f ?ys] keys)
qed

lemma groupBy_regroup: "groupBy f (concat (map snd (groupBy f xs))) = groupBy f xs"
proof -
  let ?ks = "map fst (groupBy f xs)"
  let ?B = "\<lambda>k. filter (\<lambda>y. f y = k) xs"
  have closed: "groupBy f xs = map (\<lambda>k. (k, ?B k)) ?ks"
    by (rule tabulates_as_map [OF groupBy_tabulates_own])
  have flat: "concat (map snd (groupBy f xs)) = concat (map ?B ?ks)"
    by (subst closed) (simp add: comp_def)
  have own: "''__proto__'' \<notin> set ?ks"
    using keys_groupBy_ordered(3) [of f xs] by simp
  have ne: "?B k \<noteq> []" if "k \<in> set ?ks" for k
  proof -
    have "k \<in> f ` set xs" using that keys_groupBy_ordered(3) [of f xs] by simp
    then obtain y where "y \<in> set xs" "f y = k" by auto
    then show ?thesis by (auto simp: filter_empty_conv)
  qed
  have "groupBy f (concat (map ?B ?ks)) = map (\<lambda>k. (k, ?B k)) ?ks"
    by (rule regroup [OF keys_groupBy_ordered(1,2) own ne]) simp_all
  then show ?thesis
    unfolding flat using closed by simp
qed

lemma object_define_last:
  assumes "\<And>a. a \<in> set obj \<Longrightarrow> enumeration_order (fst a) k"
  shows "object_define k v obj = obj @ [(k, v)]"
proof (cases "is_array_index k")
  case False
  then show ?thesis by (simp add: object_define_def)
next
  case True
  have "enumerated_before (fst a) k" if "a \<in> set obj" for a
    using assms [OF that] True by (simp add: enumeration_order_def enumerated_before_def)
  then have "filter (\<lambda>e. enumerated_before (fst e) k) obj = obj"
    and "filter (\<lambda>e. \<not> enumerated_before (fst e) k) obj = []"
    by simp_all
  then show ?thesis using True by (simp add: object_define_def)
qed

lemma foldl_object_set_ordered:
  "sorted_wrt enumeration_order (map fst acc @ map fst entries) \<Longrightarrow>
   distinct (map fst acc @ map fst entries) \<Longrightarrow>
   ''__proto__'' \<notin> fst ` set entries \<Longrightarrow>
     foldl (\<lambda>obj (k, v). object_set k (h v) obj) acc entries
       = acc @ map (\<lambda>e. (fst e, h (snd e))) entries"
proof (induction entries arbitrary: acc)
  case Nil
  then show ?case by simp
next
  case (Cons e entries)
  obtain k v where e: "e = (k, v)" by (cases e)
  have fresh: "k \<notin> fst ` set acc" using Cons.prems(2) by (auto simp: e)
  have own: "k \<noteq> ''__proto__''" using Cons.prems(3) by (auto simp: e)
  have before: "enumeration_order (fst a) k" if "a \<in> set acc" for a
    using Cons.prems(1) that by (simp add: sorted_wrt_append e)
  have step: "object_set k (h v) acc = acc @ [(k, h v)]"
    using fresh own by (simp add: object_set_def object_define_last [OF before])
  have "foldl (\<lambda>obj (k, v). object_set k (h v) obj) (acc @ [(k, h v)]) entries
      = (acc @ [(k, h v)]) @ map (\<lambda>e. (fst e, h (snd e))) entries"
    using Cons.prems by (intro Cons.IH) (simp_all add: e)
  then show ?case by (simp add: e step)
qed

lemma categorisedResults_closed_form:
  "categorisedResults (Some rs) = map (\<lambda>e. (fst e, groupBy page (snd e))) (groupBy library rs)"
proof -
  have own: "''__proto__'' \<notin> fst ` set (groupBy library rs)"
    using keys_groupBy_ordered(3) [of library rs] by simp
  show ?thesis
    unfolding categorisedResults_def Let_def option.case
    using foldl_object_set_ordered [of "[]" "groupBy library rs" "groupBy page"]
      keys_groupBy_ordered(1,2) [of library rs] own
    by simp
qed

lemma getDeepValues_concat: "getDeepValues obj = concat (map (\<lambda>e. concat (map snd (snd e))) obj)"
  by (simp add: getDeepValues_def split_def)

lemma regroup_two_level:
  fixes f g :: "'a \<Rightarrow> string"
  assumes free: "''__proto__'' \<notin> g ` set xs"
  shows "map (\<lambda>e. (fst e, groupBy g (snd e)))
           (groupBy f (concat (map (\<lambda>e. concat (map snd (snd e)))
              (map (\<lambda>e. (fst e, groupBy g (snd e))) (groupBy f xs)))))
         = map (\<lambda>e. (fst e, groupBy g (snd e))) (groupBy f xs)"
proof -
  let ?L = "groupBy f xs"
  let ?ks = "map fst ?L"
  let ?X = "\<lambda>k. filter (\<lambda>y. f y = k) xs"
  let ?Y = "\<lambda>k. concat (map snd (groupBy g (?X k)))"
  have L: "?L = map (\<lambda>k. (k, ?X k)) ?ks"
    by (rule tabulates_as_map [OF groupBy_tabulates_own])
  have free_X: "''__proto__'' \<notin> g ` set (?X k)" for k
    using free by auto
  have mset_Y: "mset (?Y k) = mset (?X k)" for k
    by (rule buckets_permutation_contiguous(1) [OF groupBy_tabulates [OF free_X]])
  then have set_Y: "set (?Y k) = set (?X k)" for k
    by (metis set_mset_mset)
  have flat: "concat (map (\<lambda>e. concat (map snd (snd e))) (map (\<lambda>e. (fst e, groupBy g (snd e))) ?L))
      = concat (map ?Y ?ks)"
    by (subst L) (simp add: comp_def)
  have own: "''__proto__'' \<notin> set ?ks"
    using keys_groupBy_ordered(3) [of f xs] by simp
  have ne: "?Y k \<noteq> []" if "k \<in> set ?ks" for k
  proof -
    have "k \<in> f ` set xs" using that keys_groupBy_ordered(3) [of f xs] by simp
    then obtain y where "y \<in> set xs" "f y = k" by auto
    then have "y \<in> set (?Y k)" unfolding set_Y by simp
    then show ?thesis by (metis empty_iff empty_set)
  qed
  have lab: "f y = k" if "k \<in> set ?ks" "y \<in> set (?Y k)" for k y
    using that(2) unfolding set_Y by simp
  have regrouped: "groupBy f (concat (map ?Y ?ks)) = map (\<lambda>k. (k, ?Y k)) ?ks"
    by (rule regroup [OF keys_groupBy_ordered(1,2) own ne lab])
  have "map (\<lambda>e. (fst e, groupBy g (snd e))) (map (\<lambda>k. (k, ?Y k)) ?ks)
      = map (\<lambda>k. (k, groupBy g (?X k))) ?ks"
    by (simp add: comp_def groupBy_regroup)
  also have "\<dots> = map (\<lambda>e. (fst e, groupBy g (snd e))) ?L"
    by (subst (2) L) (simp add: comp_def)
  finally show ?thesis
    unfolding flat regrouped .
qed

lemma categorise_flatten_fixpoint:
  assumes "''__proto__'' \<notin> page ` set rs"
  shows "categorisedResults (Some (flattenSearchResults (categorisedResults (Some rs))))
     = categorisedResults (Some rs)"
  unfolding flattenSearchResults_def getDeepValues_concat categorisedResults_closed_form
  by (rule regroup_two_level [OF assms])

subsection \<open>The flattened order\<close>

text \<open>
  What grouping and flattening keep. The flattened list is a permutation of the results
  neither of whose keys is \<^verbatim>\<open>__proto__\<close>, and the results of each pair of library and page
  are neighbours in it.
\<close>

lemma flatten_categorise_kept:
  "mset (flattenSearchResults (categorisedResults (Some rs)))
     = mset (filter (\<lambda>r. library r \<noteq> ''__proto__'' \<and> page r \<noteq> ''__proto__'') rs)
   \<and> contiguous_by (\<lambda>r. (library r, page r)) (flattenSearchResults (categorisedResults (Some rs)))"
  using flatten_categorised_permutation [of rs] flatten_categorised_contiguous [of rs]
  by (rule conjI)

text \<open>
  For a list of results in which no library and no page is \<^verbatim>\<open>__proto__\<close>, grouping by
  library, then by page, and flattening gives a permutation of the list, grouped
  contiguously by library and page, and a fixed point: categorising and flattening it
  again returns it unchanged.
\<close>

lemma flatten_categorise_own_keys:
  assumes "''__proto__'' \<notin> library ` set rs" and "''__proto__'' \<notin> page ` set rs"
  shows "mset (flattenSearchResults (categorisedResults (Some rs))) = mset rs"
    and "contiguous_by (\<lambda>r. (library r, page r)) (flattenSearchResults (categorisedResults (Some rs)))"
    and "flattenSearchResults (categorisedResults
          (Some (flattenSearchResults (categorisedResults (Some rs)))))
        = flattenSearchResults (categorisedResults (Some rs))"
proof -
  have "\<And>r. r \<in> set rs \<Longrightarrow> library r \<noteq> ''__proto__'' \<and> page r \<noteq> ''__proto__''"
    using assms by (metis image_eqI)
  then have "\<forall>r \<in> set rs. library r \<noteq> ''__proto__'' \<and> page r \<noteq> ''__proto__''"
    by blast
  then have "filter (\<lambda>r. library r \<noteq> ''__proto__'' \<and> page r \<noteq> ''__proto__'') rs = rs"
    by (rule filter_True)
  then show "mset (flattenSearchResults (categorisedResults (Some rs))) = mset rs"
    using flatten_categorised_permutation [of rs] by simp
  show "contiguous_by (\<lambda>r. (library r, page r)) (flattenSearchResults (categorisedResults (Some rs)))"
    by (rule flatten_categorised_contiguous)
  show "flattenSearchResults (categorisedResults
          (Some (flattenSearchResults (categorisedResults (Some rs)))))
        = flattenSearchResults (categorisedResults (Some rs))"
    by (simp only: categorise_flatten_fixpoint [OF assms(2)])
qed

text \<open>
  Claim C2 says that for every non-empty list of results the flattened categorised
  results are a permutation of the list. The list \<open>proto_hits\<close> has three results of the
  library "library"; the page of the second is \<^verbatim>\<open>__proto__\<close>. Grouping by page assigns to
  the key \<^verbatim>\<open>__proto__\<close> of a plain object, which replaces the prototype and creates no
  bucket, so the second result is in no category: the flattened list has the first and
  the third result only, and is not a permutation of the three.
\<close>

theorem proto_page_result_dropped:
  "proto_hits \<noteq> []
   \<and> categorisedResults (Some proto_hits)
      = [(''library'', [(''Frame'', [hit ''library'' ''Frame'' ''a'', hit ''library'' ''Frame'' ''c''])])]
   \<and> flattenSearchResults (categorisedResults (Some proto_hits))
      = [hit ''library'' ''Frame'' ''a'', hit ''library'' ''Frame'' ''c'']
   \<and> length (flattenSearchResults (categorisedResults (Some proto_hits))) = 2
   \<and> length proto_hits = 3
   \<and> mset (flattenSearchResults (categorisedResults (Some proto_hits))) \<noteq> mset proto_hits"
proof -
  have flat: "flattenSearchResults (categorisedResults (Some proto_hits))
      = [hit ''library'' ''Frame'' ''a'', hit ''library'' ''Frame'' ''c'']"
    by code_simp
  have cat: "categorisedResults (Some proto_hits)
      = [(''library'', [(''Frame'', [hit ''library'' ''Frame'' ''a'', hit ''library'' ''Frame'' ''c''])])]"
    by code_simp
  have len: "length proto_hits = 3" and ne: "proto_hits \<noteq> []"
    by (simp_all add: proto_hits_def)
  have "size (mset (flattenSearchResults (categorisedResults (Some proto_hits)))) = 2"
    by (simp add: flat)
  moreover have "size (mset proto_hits) = 3" by (simp add: len)
  ultimately have "mset (flattenSearchResults (categorisedResults (Some proto_hits))) \<noteq> mset proto_hits"
    by (metis numeral_eq_iff semiring_norm(88) size_mset of_nat_eq_iff Suc_n_not_n eval_nat_numeral(3))
  then show ?thesis
    using flat cat len ne by simp
qed

text \<open>The grouping of a list with numbered pages, in the order of enumeration of the
  keys.\<close>

lemma flatten_categorise_mixed_hits:
  "flattenSearchResults (categorisedResults (Some mixed_hits))
      = [hit ''motion'' ''2'' ''f'', hit ''motion'' ''10'' ''m1'', hit ''motion'' ''Gestures'' ''d'',
         hit ''library'' ''Frame'' ''a'', hit ''library'' ''Frame'' ''e'', hit ''library'' ''Scroll'' ''c'']"
  by code_simp

section \<open>Properties of the selection cursor\<close>

lemma cursor_next_upper: "0 < N \<Longrightarrow> cursor_next N i \<le> int N - 1"
  by (simp add: cursor_next_def)

lemma cursor_next_fixpoint: "0 < N \<Longrightarrow> cursor_next N (int N - 1) = int N - 1"
  by (simp add: cursor_next_def)

lemma cursor_next_funpow_ge:
  "0 < N \<Longrightarrow> min (i + int k) (int N - 1) \<le> (cursor_next N ^^ k) i"
proof (induction k)
  case 0
  then show ?case by simp
next
  case (Suc k)
  then have "min (i + int k) (int N - 1) \<le> (cursor_next N ^^ k) i" by simp
  then show ?case unfolding funpow.simps o_apply cursor_next_def using Suc.prems by auto
qed

lemma cursor_next_funpow_le:
  "0 < N \<Longrightarrow> 0 < k \<Longrightarrow> (cursor_next N ^^ k) i \<le> int N - 1"
  by (cases k) (simp_all add: cursor_next_def)

text \<open>
  Claim C10. The cursor is clamped and does not wrap. For a list of length \<open>N > 0\<close>,
  \<open>next\<close> gives \<open>min (index + 1) (N - 1)\<close> and \<open>previous\<close> gives \<open>max (index - 1) 0\<close>;
  with \<open>N = 5\<close>, ten consecutive \<open>next\<close> calls from any index \<open>0 \<le> i\<close> (in
  particular from a fresh cursor, index 0) end at index 4. For \<open>N = 0\<close> the three operations \<open>next\<close>, \<open>previous\<close> and \<open>set i\<close> are total
  (nothing is raised) and a cursor at index 0 stays at index 0.
\<close>

theorem cursor_clamped_non_wrapping:
  "(0 < N \<longrightarrow> cursor_next N i = min (i + 1) (int N - 1)
           \<and> cursor_previous N i = max (i - 1) 0)
   \<and> (0 \<le> i \<longrightarrow> (cursor_next 5 ^^ 10) i = 4)
   \<and> cursor_next 0 0 = 0 \<and> cursor_previous 0 0 = 0 \<and> cursor_set 0 j 0 = 0"
proof -
  have ten: "(cursor_next 5 ^^ 10) i = 4" if "0 \<le> i"
  proof -
    have "min (i + int 10) (int 5 - 1) \<le> (cursor_next 5 ^^ 10) i"
      by (rule cursor_next_funpow_ge) simp
    moreover have "(cursor_next 5 ^^ 10) i \<le> int 5 - 1"
      by (rule cursor_next_funpow_le) simp_all
    ultimately show ?thesis using that by simp
  qed
  show ?thesis
    using ten by (simp add: cursor_next_def cursor_previous_def cursor_set_def)
qed

theorem cursor_clamped_non_wrapping_witness:
  "(0::nat) < 5 \<and> cursor_next 5 1 = 2 \<and> cursor_next 5 4 = 4 \<and> cursor_previous 5 0 = 0
   \<and> (0::int) \<le> 0 \<and> (cursor_next 5 ^^ 10) 0 = 4"
  using cursor_clamped_non_wrapping [of 5 1 0] cursor_clamped_non_wrapping [of 5 4 0]
    cursor_clamped_non_wrapping [of 5 0 0]
  by simp

section \<open>Frame lemmas of the overlay\<close>

lemma timerExpired_frame [simp]:
  "value_text (timerExpired env now s) = value_text s"
  "isOpen (timerExpired env now s) = isOpen s"
  "results (timerExpired env now s) = results s"
  "resultIndex (timerExpired env now s) = resultIndex s"
  "suggestedIndex (timerExpired env now s) = suggestedIndex s"
  "consoleErrors (timerExpired env now s) = consoleErrors s"
  "navigations (timerExpired env now s) = navigations s"
  "uncaught (timerExpired env now s) = uncaught s"
  by (simp_all add: timerExpired_def search_invoke_def Let_def split: option.splits prod.splits)

lemma setResult_frame [simp]:
  "value_text (setResult i s) = value_text s"
  "isOpen (setResult i s) = isOpen s"
  "results (setResult i s) = results s"
  "suggestedIndex (setResult i s) = suggestedIndex s"
  "timer (setResult i s) = timer s"
  "requests (setResult i s) = requests s"
  "consoleErrors (setResult i s) = consoleErrors s"
  "navigations (setResult i s) = navigations s"
  "uncaught (setResult i s) = uncaught s"
  by (simp_all add: setResult_def)

lemma setSuggestedResult_frame [simp]:
  "value_text (setSuggestedResult env i s) = value_text s"
  "isOpen (setSuggestedResult env i s) = isOpen s"
  "results (setSuggestedResult env i s) = results s"
  "resultIndex (setSuggestedResult env i s) = resultIndex s"
  "timer (setSuggestedResult env i s) = timer s"
  "requests (setSuggestedResult env i s) = requests s"
  "consoleErrors (setSuggestedResult env i s) = consoleErrors s"
  "navigations (setSuggestedResult env i s) = navigations s"
  "uncaught (setSuggestedResult env i s) = uncaught s"
  by (simp_all add: setSuggestedResult_def)

lemma runEffects_frame [simp]:
  "value_text (runEffects env prev s) = value_text s"
  "isOpen (runEffects env prev s) = isOpen s"
  "results (runEffects env prev s) = results s"
  "timer (runEffects env prev s) = timer s"
  "requests (runEffects env prev s) = requests s"
  "consoleErrors (runEffects env prev s) = consoleErrors s"
  "navigations (runEffects env prev s) = navigations s"
  "uncaught (runEffects env prev s) = uncaught s"
  by (simp_all add: runEffects_def openEffect_def suggestingEffect_def)

lemma isSuggesting_cong: "results s' = results s \<Longrightarrow> isSuggesting s' = isSuggesting s"
  by (simp add: isSuggesting_def)

lemma presentationMode_results:
  "presentationMode s =
     (case results s of None \<Rightarrow> Suggesting | Some [] \<Rightarrow> Empty | Some (r # rs) \<Rightarrow> Showing)"
  by (simp add: presentationMode_def isEmpty_def isSuggesting_def split: option.splits list.splits)

lemma no_change_effects: "runEffects env s s = s"
  by (simp add: runEffects_def openEffect_def suggestingEffect_def)


lemma length_suggestedResults: "length (suggestedResults env) = 4"
  by (simp add: suggestedResults_def librarySuggestedResults_def motionSuggestedResults_def)

section \<open>Responses of the search service\<close>

text \<open>
  Claim C1, as stated: of two requests A and B, B issued later, a response to A that
  arrives after the response to B is dropped, and the displayed results are B's. The
  promise callbacks carry no token and compare nothing: in \<open>stale_response_run\<close> the
  requests for "a" and "an" are issued in this order, the answer to "an" arrives at 600
  and the answer to "a" at 700, and the results stored and displayed at the end are those
  of the answer to "a".
\<close>

theorem stale_response_counterexample:
  "map query (requests stale_response_run) = [''a'', ''an'']
   \<and> results stale_response_run = Some [hit ''library'' ''Frame'' ''A'']
   \<and> results stale_response_run \<noteq> Some [hit ''library'' ''Animation'' ''B'']
   \<and> indexedResults stale_response_run = [hit ''library'' ''Frame'' ''A'']"
  by code_simp

text \<open>
  Claim C1, amended: the component issues no token; every successful response is stored
  when it arrives, whichever request it answers and whatever is stored already, so the
  results stored and displayed are those of the response that arrived last.
\<close>

theorem response_stored_unconditionally:
  "results (step env s (now, Resolved n hits)) = Some hits
   \<and> indexedResults (step env s (now, Resolved n hits))
       = flattenSearchResults (categorisedResults (Some hits))"
  by (simp add: step_def Let_def searchResolved_def indexedResults_def)

text \<open>
  Claim C8, as stated: when the call of the search service fails, the failure is treated
  as zero results and the presentation mode becomes \<open>Empty\<close>. The claim also names the
  request of the earlier component in \<^verbatim>\<open>Search.tsx\<close>, whose \<^verbatim>\<open>catch\<close> only logs: in
  \<open>earlier_showing\<close> three results are stored, and after a failure the same three results
  are stored and the error is in the console.
\<close>

theorem failure_keeps_results_earlier_counterexample:
  "results_earlier earlier_showing = three_hits
   \<and> results_earlier (earlier_searchRejected ''NetworkError'' earlier_showing) = three_hits
   \<and> results_earlier (earlier_searchRejected ''NetworkError'' earlier_showing) \<noteq> []
   \<and> consoleErrors_earlier (earlier_searchRejected ''NetworkError'' earlier_showing)
       = [''NetworkError'']"
  by (simp add: earlier_showing_def earlier_searchRejected_def earlier_searchResolved_def
      earlier_search_invoke_def earlier_initialState_def three_hits_def)

text \<open>
  Claim C8, amended: in the latest component, the one with presentation modes, a failed
  call of the search service sets the stored results to the empty array, so that the
  presentation mode is \<open>Empty\<close>; the error goes to \<^verbatim>\<open>console.error\<close>; nothing is thrown and
  nothing is navigated to, the overlay stays as open as it was and the query text stays;
  afterwards typing schedules a search as before and Escape closes. In the earlier
  component of \<^verbatim>\<open>Search.tsx\<close>, which has no presentation modes, the failure is only
  reported to \<^verbatim>\<open>console.error\<close>, and the stored results, the query text and the open state
  stay as they were.
\<close>

theorem failure_degrades_to_empty:
  "results (step env s (now, Rejected n error)) = Some []
   \<and> presentationMode (step env s (now, Rejected n error)) = Empty
   \<and> consoleErrors (step env s (now, Rejected n error)) = consoleErrors s @ [error]
   \<and> uncaught (step env s (now, Rejected n error)) = uncaught s
   \<and> navigations (step env s (now, Rejected n error)) = navigations s
   \<and> isOpen (step env s (now, Rejected n error)) = isOpen s
   \<and> value_text (step env s (now, Rejected n error)) = value_text s
   \<and> (v \<noteq> [] \<longrightarrow>
        value_text (step env (step env s (now, Rejected n error)) (later, Change v)) = v
        \<and> timer (step env (step env s (now, Rejected n error)) (later, Change v)) = Some (v, later + wait))
   \<and> (isOpen s \<and> key event = ''Escape'' \<longrightarrow>
        \<not> isOpen (step env (step env s (now, Rejected n error)) (later, KeyDown active event)))
   \<and> results_earlier (earlier_searchRejected error t) = results_earlier t
   \<and> consoleErrors_earlier (earlier_searchRejected error t) = consoleErrors_earlier t @ [error]
   \<and> value_earlier (earlier_searchRejected error t) = value_earlier t
   \<and> open_earlier (earlier_searchRejected error t) = open_earlier t"
proof -
  let ?s = "step env s (now, Rejected n error)"
  have first: "results ?s = Some [] \<and> presentationMode ?s = Empty
     \<and> consoleErrors ?s = consoleErrors s @ [error] \<and> uncaught ?s = uncaught s
     \<and> navigations ?s = navigations s \<and> isOpen ?s = isOpen s \<and> value_text ?s = value_text s"
    by (simp add: step_def Let_def searchRejected_def presentationMode_results)
  have typing: "value_text (step env ?s (later, Change v)) = v
      \<and> timer (step env ?s (later, Change v)) = Some (v, later + wait)" if "v \<noteq> []"
    using that by (simp add: step_def [of env ?s] Let_def handleChange_def search_def)
  have closing: "\<not> isOpen (step env ?s (later, KeyDown active event))"
    if "isOpen s" "key event = ''Escape''"
    using that first by (simp add: step_def [of env ?s] Let_def handleKey_def)
  have earlier: "results_earlier (earlier_searchRejected error t) = results_earlier t
     \<and> consoleErrors_earlier (earlier_searchRejected error t) = consoleErrors_earlier t @ [error]
     \<and> value_earlier (earlier_searchRejected error t) = value_earlier t
     \<and> open_earlier (earlier_searchRejected error t) = open_earlier t"
    by (simp add: earlier_searchRejected_def)
  show ?thesis using first typing closing earlier by simp
qed

theorem failure_degrades_to_empty_witness:
  "isOpen failing_run
   \<and> presentationMode (step example_env failing_run (400, Rejected 0 ''NetworkError'')) = Empty
   \<and> consoleErrors (step example_env failing_run (400, Rejected 0 ''NetworkError'')) = [''NetworkError'']
   \<and> timer (step example_env (step example_env failing_run (400, Rejected 0 ''NetworkError'')) (500, Change ''drop''))
       = Some (''drop'', 700)
   \<and> \<not> isOpen (step example_env (step example_env failing_run (400, Rejected 0 ''NetworkError''))
        (500, KeyDown OtherElement (plain_key ''Escape'')))
   \<and> results_earlier (earlier_searchRejected ''NetworkError'' earlier_showing)
       = results_earlier earlier_showing"
proof -
  have a: "isOpen failing_run" by code_simp
  have b: "consoleErrors failing_run = []" by code_simp
  have k: "key (plain_key ''Escape'') = ''Escape''" by (simp add: plain_key_def)
  show ?thesis
    using failure_degrades_to_empty [of example_env failing_run 400 0 "''NetworkError''" "''drop''" 500
        "plain_key ''Escape''" OtherElement earlier_showing] a b k
    by (simp add: wait_def)
qed

section \<open>Query dispatch\<close>

text \<open>
  Claim C7. A change of the query to the empty text issues no request: the handler leaves
  the list of requests as it is, drops the pending debounced call, sets the stored results
  to \<^verbatim>\<open>null\<close>, and the presentation mode is \<open>Suggesting\<close>; no request follows later either.
  (In \<open>step\<close>, a debounced call that was already due at the time of the event has been
  invoked before the handler runs; that is \<open>timerExpired\<close>.)
\<close>

theorem empty_query_no_request:
  "requests (handleChange now [] s) = requests s
   \<and> timer (handleChange now [] s) = None
   \<and> results (handleChange now [] s) = None
   \<and> requests (step env s (now, Change [])) = requests (timerExpired env now s)
   \<and> timer (step env s (now, Change [])) = None
   \<and> results (step env s (now, Change [])) = None
   \<and> value_text (step env s (now, Change [])) = []
   \<and> presentationMode (step env s (now, Change [])) = Suggesting
   \<and> requests (step env (step env s (now, Change [])) (later, Tick))
       = requests (step env s (now, Change []))"
  by (simp add: step_def Let_def handleChange_def search_cancel_def presentationMode_def
      isEmpty_def isSuggesting_def timerExpired_def)

lemma timerExpired_not_due: "timer_not_due now s \<Longrightarrow> timerExpired env now s = s"
  by (auto simp: timer_not_due_def timerExpired_def split: option.splits)

lemma step_change_not_due:
  assumes "timer_not_due now s" and "v \<noteq> []"
  shows "requests (step env s (now, Change v)) = requests s"
    and "timer (step env s (now, Change v)) = Some (v, now + wait)"
  using assms
  by (simp_all add: step_def Let_def timerExpired_not_due handleChange_def search_def)

lemma burst_pending:
  assumes "rapid ((t, v) # cs)" and "\<forall>c \<in> set ((t, v) # cs). snd c \<noteq> []"
    and "timer_not_due t s"
  shows "requests (run env s (setQuery_calls ((t, v) # cs))) = requests s
     \<and> timer (run env s (setQuery_calls ((t, v) # cs)))
         = Some (snd (last ((t, v) # cs)), fst (last ((t, v) # cs)) + wait)"
  using assms
proof (induction cs arbitrary: t v s)
  case Nil
  then show ?case
    by (simp add: run_def setQuery_calls_def step_change_not_due)
next
  case (Cons d cs)
  obtain t' v' where d: "d = (t', v')" by (cases d)
  let ?s1 = "step env s (t, Change v)"
  have v: "v \<noteq> []" using Cons.prems(2) by simp
  have r1: "requests ?s1 = requests s" and t1: "timer ?s1 = Some (v, t + wait)"
    using step_change_not_due [OF Cons.prems(3) v] by simp_all
  have nd: "timer_not_due t' ?s1"
    using Cons.prems(1) t1 by (simp add: d timer_not_due_def)
  have rap: "rapid ((t', v') # cs)" using Cons.prems(1) by (simp add: d)
  have ne: "\<forall>c \<in> set ((t', v') # cs). snd c \<noteq> []" using Cons.prems(2) by (simp add: d)
  have unfold: "run env s (setQuery_calls ((t, v) # d # cs))
      = run env ?s1 (setQuery_calls ((t', v') # cs))"
    by (simp add: run_def setQuery_calls_def d)
  show ?case
    unfolding unfold using Cons.IH [OF rap ne nd] r1 by (simp add: d)
qed

text \<open>
  Claim C6. Take any non-empty sequence of calls of the change handler with non-empty
  texts, each less than 200 ms after the one before, starting with no call pending. While
  the sequence runs no request is issued, and each call replaces the pending one, so that
  at the end the pending call is the last one, due 200 ms after it. Until then nothing is
  issued; once that time is reached exactly one request is issued, for the text of the
  last call, and nothing is pending any more.
\<close>

theorem only_final_call_dispatched:
  assumes "calls \<noteq> []" and "rapid calls" and "\<forall>c \<in> set calls. snd c \<noteq> []"
    and "timer s = None"
  shows "requests (run env s (setQuery_calls calls)) = requests s
     \<and> timer (run env s (setQuery_calls calls)) = Some (snd (last calls), fst (last calls) + wait)
     \<and> (later < fst (last calls) + wait \<longrightarrow>
          requests (step env (run env s (setQuery_calls calls)) (later, Tick)) = requests s)
     \<and> (fst (last calls) + wait \<le> later \<longrightarrow>
          map query (requests (step env (run env s (setQuery_calls calls)) (later, Tick)))
            = map query (requests s) @ [snd (last calls)]
          \<and> timer (step env (run env s (setQuery_calls calls)) (later, Tick)) = None)"
proof -
  obtain t v cs where calls: "calls = (t, v) # cs"
    using assms(1) by (cases calls) auto
  have nd: "timer_not_due t s" using assms(4) by (simp add: timer_not_due_def)
  let ?s = "run env s (setQuery_calls calls)"
  have main: "requests ?s = requests s"
      "timer ?s = Some (snd (last calls), fst (last calls) + wait)"
    using burst_pending [OF assms(2,3) [unfolded calls] nd, of env] by (simp_all add: calls)
  have early: "requests (step env ?s (later, Tick)) = requests s"
    if "later < fst (last calls) + wait"
    using that main by (simp add: step_def Let_def timerExpired_def)
  have late: "map query (requests (step env ?s (later, Tick))) = map query (requests s) @ [snd (last calls)]
      \<and> timer (step env ?s (later, Tick)) = None"
    if "fst (last calls) + wait \<le> later"
    using that main by (simp add: step_def Let_def timerExpired_def search_invoke_def)
  show ?thesis using main early late by simp
qed

theorem only_final_call_dispatched_witness:
  "typing_drag \<noteq> [] \<and> rapid typing_drag \<and> [] \<notin> set (map snd typing_drag)
   \<and> timer initialState = None
   \<and> requests (run example_env initialState (setQuery_calls typing_drag)) = []
   \<and> requests (step example_env (run example_env initialState (setQuery_calls typing_drag)) (569, Tick)) = []
   \<and> map query (requests (step example_env (run example_env initialState (setQuery_calls typing_drag)) (570, Tick)))
       = [''drag'']"
proof -
  have a: "typing_drag \<noteq> []" by (simp add: typing_drag_def)
  have b: "rapid typing_drag" by (simp add: typing_drag_def wait_def)
  have c: "\<forall>c \<in> set typing_drag. snd c \<noteq> []" by (simp add: typing_drag_def)
  have d: "timer initialState = None" "requests initialState = []" by (simp_all add: initialState_def)
  have e: "snd (last typing_drag) = ''drag''" "fst (last typing_drag) = 370"
    by (simp_all add: typing_drag_def)
  show ?thesis
    using only_final_call_dispatched [OF a b c d(1), of example_env 569]
      only_final_call_dispatched [OF a b c d(1), of example_env 570] a b d e
    by (simp add: wait_def typing_drag_def)
qed

section \<open>Selection after the results are replaced\<close>

text \<open>
  Claim C3 says that whenever the active list is replaced the cursor is back at 0, so that
  it never points past the end. The effects reset the result cursor when \<^verbatim>\<open>isSuggesting\<close>
  becomes true and when the overlay closes, but not when one non-empty result list
  replaces another. In \<open>stale_cursor_run\<close> three results are shown, the cursor is moved to
  index 2, and the answer to the next query has one result: the mode is still \<open>Showing\<close>,
  the cursor is still 2, the selected result is \<^verbatim>\<open>undefined\<close>, and Enter then closes the
  overlay with a \<^verbatim>\<open>TypeError\<close> instead of a navigation.
\<close>

theorem stale_cursor_after_replacement:
  "presentationMode stale_cursor_run = Showing
   \<and> indexedResults stale_cursor_run = [hit ''library'' ''Frame'' ''drag'']
   \<and> resultIndex stale_cursor_run = 2
   \<and> selectedResult stale_cursor_run = None
   \<and> uncaught (step example_env stale_cursor_run (900, KeyDown OtherElement (plain_key ''Enter'')))
       = [TypeError]
   \<and> navigations (step example_env stale_cursor_run (900, KeyDown OtherElement (plain_key ''Enter'')))
       = []"
  by code_simp

section \<open>Keyboard and pointer\<close>

lemma suggestion_cursor_ok_set: "suggestion_cursor_ok env (setSuggestedResult env i s)"
  by (simp add: suggestion_cursor_ok_def setSuggestedResult_def cursor_set_def clamp_def
      length_suggestedResults)

lemma suggestion_cursor_ok_setResult [simp]:
  "suggestion_cursor_ok env (setResult i s) = suggestion_cursor_ok env s"
  by (simp add: suggestion_cursor_ok_def)

lemma suggestion_cursor_ok_effects:
  "suggestion_cursor_ok env s \<Longrightarrow> suggestion_cursor_ok env (runEffects env prev s)"
  by (simp add: runEffects_def openEffect_def suggestingEffect_def suggestion_cursor_ok_set)

lemma suggestion_cursor_ok_key:
  "suggestion_cursor_ok env s \<Longrightarrow> suggestion_cursor_ok env (handleKey env now active event s)"
  by (auto simp: handleKey_def suggestion_cursor_ok_def previousSuggestedResult_def
      nextSuggestedResult_def previousResult_def nextResult_def navigateTo_def handleChange_def
      search_def search_cancel_def cursor_next_def cursor_previous_def length_suggestedResults
      Let_def split: option.splits)

lemma suggestion_cursor_ok_handle:
  "suggestion_cursor_ok env s \<Longrightarrow> suggestion_cursor_ok env (handle env now e s)"
  by (cases e)
    (simp_all add: suggestion_cursor_ok_key suggestion_cursor_ok_set,
     simp_all add: suggestion_cursor_ok_def handleChange_def search_def search_cancel_def Let_def
       handleFocus_def handleClose_def searchResolved_def searchRejected_def setResult_def)

lemma suggestion_cursor_ok_step:
  "suggestion_cursor_ok env s \<Longrightarrow> suggestion_cursor_ok env (step env s e)"
  unfolding step_def Let_def
  by (intro suggestion_cursor_ok_effects suggestion_cursor_ok_handle)
     (simp add: suggestion_cursor_ok_def)

lemma suggestion_cursor_ok_run:
  "suggestion_cursor_ok env s \<Longrightarrow> suggestion_cursor_ok env (run env s events)"
  unfolding run_def
  by (induction events arbitrary: s) (simp_all add: suggestion_cursor_ok_step)

lemma suggestion_cursor_ok_initial: "suggestion_cursor_ok env initialState"
  by (simp add: suggestion_cursor_ok_def initialState_def length_suggestedResults)

text \<open>
  Claim C4, as stated: in \<open>Empty\<close> mode the active list is empty and Enter navigates
  nowhere. In \<open>empty_mode_run\<close> the query "zzz" has no result and the mode is \<open>Empty\<close>; the
  result list is empty, but the keyboard acts on the suggestions, and Enter navigates to
  the first of them.
\<close>

theorem enter_in_empty_mode_counterexample:
  "isOpen empty_mode_run \<and> presentationMode empty_mode_run = Empty
   \<and> indexedResults empty_mode_run = []
   \<and> navigations empty_mode_run = []
   \<and> navigations (step example_env empty_mode_run (400, KeyDown OtherElement (plain_key ''Enter'')))
       = [''/api/frame/#animationprops.animate'']"
  by code_simp

text \<open>
  Claim C4, amended: when the overlay is open in \<open>Empty\<close> mode, the active list is the
  static list of suggestions, which is not empty; Enter closes the overlay and navigates
  to the target of the selected suggestion, and nothing is thrown. This holds in every
  state that the component reaches from its initial state.
\<close>

theorem enter_in_empty_mode_navigates:
  assumes "s = run env initialState events"
    and "isOpen s" and "presentationMode s = Empty" and "key event = ''Enter''"
  shows "activeList env s = suggestedResults env \<and> activeList env s \<noteq> []
    \<and> navigations (step env s (now, KeyDown active event))
        = navigations s @ [href (suggestedResults env ! nat (suggestedIndex s))]
    \<and> uncaught (step env s (now, KeyDown active event)) = uncaught s
    \<and> \<not> isOpen (step env s (now, KeyDown active event))"
proof -
  have sugg: "isSuggesting s"
    using assms(3) by (simp add: presentationMode_def split: if_splits)
  have ok: "suggestion_cursor_ok env s"
    unfolding assms(1) by (rule suggestion_cursor_ok_run [OF suggestion_cursor_ok_initial])
  then have sel: "selectedSuggestedResult env s = Some (suggestedResults env ! nat (suggestedIndex s))"
    by (simp add: selectedSuggestedResult_def cursor_item_def suggestion_cursor_ok_def)
  have sugg': "isSuggesting (timerExpired env now s)"
    using sugg by (simp add: isSuggesting_cong [of "timerExpired env now s" s])
  have sel': "selectedSuggestedResult env (timerExpired env now s)
      = Some (suggestedResults env ! nat (suggestedIndex s))"
    using sel by (simp add: selectedSuggestedResult_def)
  have key: "handleKey env now active event (timerExpired env now s)
      = (timerExpired env now s)\<lparr>isOpen := False,
          navigations := navigations s @ [href (suggestedResults env ! nat (suggestedIndex s))]\<rparr>"
    using assms(2,4) sugg' sel' by (simp add: handleKey_def navigateTo_def)
  have nonempty: "suggestedResults env \<noteq> []"
    using length_suggestedResults [of env] by auto
  show ?thesis
    using sugg nonempty by (simp add: step_def Let_def key activeList_def)
qed

theorem enter_in_empty_mode_navigates_witness:
  "isOpen empty_mode_run \<and> presentationMode empty_mode_run = Empty
   \<and> navigations (step example_env empty_mode_run (400, KeyDown OtherElement (plain_key ''Enter'')))
      = navigations empty_mode_run @ [href (suggestedResults example_env ! nat (suggestedIndex empty_mode_run))]
   \<and> \<not> isOpen (step example_env empty_mode_run (400, KeyDown OtherElement (plain_key ''Enter'')))"
proof -
  have a: "isOpen empty_mode_run" by code_simp
  have b: "presentationMode empty_mode_run = Empty" by code_simp
  have c: "key (plain_key ''Enter'') = ''Enter''" by (simp add: plain_key_def)
  show ?thesis
    using enter_in_empty_mode_navigates [OF empty_mode_run_def a b c, of 400 OtherElement] a b
    by simp
qed

section \<open>Closing and opening\<close>








text \<open>
  Claim C9, as stated: from the closed state, focus, a "/" keypress or a first printable
  character open the overlay in \<open>Suggesting\<close> mode. The listener tests the key against
  \<^verbatim>\<open>/^\w$/\<close>: from the initial state neither "/" nor "-" opens the overlay. And closing
  keeps the stored results: after \<open>showing_run\<close> is closed, focus opens it in \<open>Showing\<close>
  mode.
\<close>

theorem open_from_closed_counterexample:
  "\<not> isOpen initialState
   \<and> \<not> isOpen (step example_env initialState (0, KeyDown Body (plain_key ''/'')))
   \<and> \<not> isOpen (step example_env initialState (0, KeyDown Body (plain_key ''-'')))
   \<and> \<not> isOpen (step example_env showing_run (500, Close))
   \<and> presentationMode (step example_env (step example_env showing_run (500, Close)) (600, Focus)) = Showing"
  by code_simp

text \<open>
  Claim C9, amended: from the closed state, a focus event, or the keypress of one word
  character (a letter, a digit or the underscore) without Meta, Ctrl or Alt while the
  focus is on the body or on nothing, opens the overlay. The presentation mode it opens in
  is the one of the stored results, which closing does not clear: \<open>Suggesting\<close> when none
  are stored, as in the initial state. In the keypress case the character becomes the
  query text and a debounced search for it is scheduled. A "/" keypress is ignored.
\<close>

theorem open_from_closed:
  assumes "\<not> isOpen s"
  shows "isOpen (step env s (now, Focus))
     \<and> presentationMode (step env s (now, Focus)) = presentationMode s
     \<and> (results s = None \<longrightarrow> presentationMode (step env s (now, Focus)) = Suggesting)
     \<and> value_text (step env s (now, Focus)) = value_text s
     \<and> (is_word_key (key event) \<and> \<not> metaKey event \<and> \<not> ctrlKey event \<and> \<not> altKey event
          \<and> (active = Body \<or> active = NoElement) \<longrightarrow>
          isOpen (step env s (now, KeyDown active event))
          \<and> value_text (step env s (now, KeyDown active event)) = key event
          \<and> timer (step env s (now, KeyDown active event)) = Some (key event, now + wait)
          \<and> presentationMode (step env s (now, KeyDown active event)) = presentationMode s)
     \<and> (key event = ''/'' \<longrightarrow> step env s (now, KeyDown active event) = timerExpired env now s)"
proof -
  have focus: "isOpen (step env s (now, Focus))
     \<and> presentationMode (step env s (now, Focus)) = presentationMode s
     \<and> value_text (step env s (now, Focus)) = value_text s"
    by (simp add: step_def Let_def handleFocus_def presentationMode_results)
  have none: "results s = None \<Longrightarrow> presentationMode s = Suggesting"
    by (simp add: presentationMode_def isEmpty_def isSuggesting_def)
  have word: "isOpen (step env s (now, KeyDown active event))
          \<and> value_text (step env s (now, KeyDown active event)) = key event
          \<and> timer (step env s (now, KeyDown active event)) = Some (key event, now + wait)
          \<and> presentationMode (step env s (now, KeyDown active event)) = presentationMode s"
    if "is_word_key (key event)" "\<not> metaKey event" "\<not> ctrlKey event" "\<not> altKey event"
       "active = Body \<or> active = NoElement"
  proof -
    have ne: "key event \<noteq> []" using that(1) by (auto simp: is_word_key_def)
    have "handleKey env now active event (timerExpired env now s)
          = (timerExpired env now s)\<lparr>value_text := key event,
               timer := Some (key event, now + wait), isOpen := True\<rparr>"
      using assms that ne by (simp add: handleKey_def handleChange_def search_def Let_def)
    then show ?thesis
      by (simp add: step_def Let_def presentationMode_results)
  qed
  have slash: "step env s (now, KeyDown active event) = timerExpired env now s"
    if "key event = ''/''"
  proof -
    have "\<not> is_word_key (key event)"
      using that by (simp add: is_word_key_def is_word_char_def)
    then show ?thesis
      using assms by (simp add: step_def Let_def handleKey_def no_change_effects)
  qed
  show ?thesis using focus none word slash by simp
qed

theorem open_from_closed_witness:
  "\<not> isOpen initialState
   \<and> isOpen (step example_env initialState (0, Focus))
   \<and> presentationMode (step example_env initialState (0, Focus)) = Suggesting
   \<and> isOpen (step example_env initialState (0, KeyDown Body (plain_key ''d'')))
   \<and> value_text (step example_env initialState (0, KeyDown Body (plain_key ''d''))) = ''d''
   \<and> timer (step example_env initialState (0, KeyDown Body (plain_key ''d''))) = Some (''d'', 200)
   \<and> \<not> isOpen (step example_env initialState (0, KeyDown Body (plain_key ''/'')))"
proof -
  have a: "\<not> isOpen initialState" by (simp add: initialState_def)
  have b: "results initialState = None" by (simp add: initialState_def)
  have c: "is_word_key (key (plain_key ''d'')) \<and> \<not> metaKey (plain_key ''d'')
      \<and> \<not> ctrlKey (plain_key ''d'') \<and> \<not> altKey (plain_key ''d'')"
    by (simp add: plain_key_def is_word_key_def is_word_char_def)
  have d: "key (plain_key ''d'') = ''d''" "key (plain_key ''/'') = ''/''"
    by (simp_all add: plain_key_def)
  show ?thesis
    using open_from_closed [OF a, of example_env 0 "plain_key ''d''" Body]
      open_from_closed [OF a, of example_env 0 "plain_key ''/''" Body] a b c d
    by (simp add: wait_def)
qed

end
